theory Spec2Isabelle
  imports Main "HOL-Library.AList"
begin

section \<open>The playbook orchestrator of lib/ansible/playbook/__init__.py\<close>

text \<open>
  The class \<open>PlayBook\<close> drives plays, tasks and handlers. It owns the setup cache and
  calls its collaborators (Inventory, Runner, Poller, Stats, Play, the callbacks and the
  template function), none of which is part of the source file. The orchestrator is
  modelled by explicit state passing. Every call it makes to a collaborator is appended
  to a trace, and what a collaborator answers is a parameter: a function of the trace so
  far and of the arguments of the call. The theorems hold for every such collaborator.
\<close>

subsection \<open>Values and results\<close>

type_synonym host = string

text \<open>Python values as they occur in module results and variables.\<close>

datatype jval =
    JNone
  | JBool bool
  | JInt int
  | JStr string
  | JDict "(string \<times> jval) list"

text \<open>
  A Python dict is an association list with one entry per key; \<open>d[k] = v\<close> is
  \<open>AList.update k v d\<close>, \<open>k in d\<close> is \<open>map_of d k \<noteq> None\<close>, and iteration follows
  the list.
\<close>

type_synonym pydict = "(string \<times> jval) list"

text \<open>Python's truth value of an object, as \<open>if results.get('changed', False)\<close> tests it.\<close>

fun truthy :: "jval \<Rightarrow> bool" where
  "truthy JNone = False"
| "truthy (JBool b) = b"
| "truthy (JInt i) = (i \<noteq> 0)"
| "truthy (JStr s) = (s \<noteq> [])"
| "truthy (JDict d) = (d \<noteq> [])"

text \<open>
  What the Runner and the Poller return: \<open>{contacted: host -> result, dark: host -> reason}\<close>.
  Both keys are present (the Runner's contract), so the defaults of
  \<open>results.get('contacted', {})\<close> and the test \<open>results is None\<close> of \<open>_run_task\<close>
  never apply.
\<close>

record results =
  contacted :: "(host \<times> pydict) list"
  dark :: "(host \<times> pydict) list"

datatype error =
    AnsibleError string
  | KeyError string
  | AttributeError
  | TypeError

subsection \<open>Inventory\<close>

text \<open>
  Modelled from the spec: the Inventory class is not part of the source file. The spec
  describes it as a view that enumerates the hosts matching a pattern and carries a
  restriction stack: \<open>restrict_to\<close> pushes a subset, \<open>lift_restriction\<close> pops it, and
  \<open>list_hosts\<close> is limited by the stacked restrictions. Pattern matching itself is a
  parameter.
\<close>

record inventory_view =
  inv_hosts :: "host list"
  restrictions :: "host list list"

definition list_hosts ::
  "(string \<Rightarrow> host \<Rightarrow> bool) \<Rightarrow> inventory_view \<Rightarrow> string option \<Rightarrow> host list" where
  "list_hosts pm iv pat =
     filter (\<lambda>h. (case pat of None \<Rightarrow> True | Some p \<Rightarrow> pm p h)
                  \<and> list_all (\<lambda>r. h \<in> set r) (restrictions iv))
            (inv_hosts iv)"

definition restrict_to :: "host list \<Rightarrow> inventory_view \<Rightarrow> inventory_view" where
  "restrict_to hs iv = iv\<lparr>restrictions := hs # restrictions iv\<rparr>"

definition lift_restriction :: "inventory_view \<Rightarrow> inventory_view" where
  "lift_restriction iv = iv\<lparr>restrictions := tl (restrictions iv)\<rparr>"

subsection \<open>Tasks, plays and the trace of collaborator calls\<close>

text \<open>
  A task and a handler have the same shape; \<open>notified_by\<close> is the list a handler
  collects its notifying hosts in.
\<close>

record task =
  name :: string
  "module_name" :: string
  module_args :: jval
  module_vars :: pydict
  notify :: "string list"
  only_if :: string
  async_seconds :: int
  async_poll_interval :: int
  notified_by :: "host list"

text \<open>\<open>vars_files\<close> is \<open>None\<close> or a list, as the test \<open>play.vars_files and len(...) > 0\<close> expects.\<close>

record play =
  play_name :: string
  hosts :: string
  vars :: jval
  vars_files :: "string list option"
  tasks :: "task list"
  handlers :: "task list"

text \<open>
  The arguments of a Runner construction that come from the play, the task and the
  orchestrator's state. The connection settings (forks, timeout, user, port, sudo,
  transport, key file, module path, basedir, debug) are constants handed through and are
  left out.
\<close>

record runner_call =
  rc_pattern :: string
  rc_module_name :: string
  rc_module_args :: jval
  rc_module_vars :: "pydict option"
  rc_conditional :: "string option"
  rc_inventory :: inventory_view
  rc_setup_cache :: "(host \<times> jval) list"

datatype event =
    On_start
  | On_play_start string
  | On_setup_primary
  | On_setup_secondary
  | On_task_start string bool
  | On_notify host string
  | On_failed host pydict
  | Runner_run runner_call
  | Runner_run_async runner_call int
  | Poller_wait int int
  | Stats_compute results bool
  | Update_vars_files "host list"

text \<open>
  The collaborators. The Runner, the Poller and the Stats ledger answer from the trace of
  all calls made so far: the ledger's state is the sequence of \<open>Stats_compute\<close> calls it
  has received, the Poller is the one returned by the last \<open>Runner_run_async\<close>.
  \<open>poller_wait\<close> returns the results of the wait together with \<open>hosts_to_poll\<close> as it
  stands when the wait returns. \<open>update_vars_files\<close> returns the play's variables after
  \<open>play.update_vars_files(hosts)\<close>; following the spec it does not write the setup cache.
\<close>

record collab =
  pattern_match :: "string \<Rightarrow> host \<Rightarrow> bool"
  runner_run :: "event list \<Rightarrow> runner_call \<Rightarrow> results"
  runner_run_async :: "event list \<Rightarrow> runner_call \<Rightarrow> int \<Rightarrow> results"
  poller_wait :: "event list \<Rightarrow> int \<Rightarrow> int \<Rightarrow> results \<times> host list"
  stats_failures :: "event list \<Rightarrow> host \<Rightarrow> bool"
  stats_dark :: "event list \<Rightarrow> host \<Rightarrow> bool"
  stats_processed :: "event list \<Rightarrow> host list"
  stats_summarize :: "event list \<Rightarrow> host \<Rightarrow> jval"
  template :: "string \<Rightarrow> pydict \<Rightarrow> string"
  update_vars_files :: "event list \<Rightarrow> play \<Rightarrow> host list \<Rightarrow> jval"

text \<open>The mutable state of a \<open>PlayBook\<close> object.\<close>

record playbook =
  SETUP_CACHE :: "(host \<times> jval) list"
  inventory :: inventory_view
  trace :: "event list"

definition emit :: "event \<Rightarrow> playbook \<Rightarrow> playbook" where
  "emit e pb = pb\<lparr>trace := trace pb @ [e]\<rparr>"

subsection \<open>\<open>_async_poll\<close>\<close>

definition timed_out :: pydict where
  "timed_out = [(''failed'', JInt 1), (''rc'', JNone), (''msg'', JStr ''timed out'')]"

text \<open>The loop \<open>for host in poller.hosts_to_poll\<close>.\<close>

fun mark_timed_out :: "host list \<Rightarrow> results \<Rightarrow> playbook \<Rightarrow> results \<times> playbook" where
  "mark_timed_out [] res pb = (res, pb)"
| "mark_timed_out (h # hs) res pb =
     mark_timed_out hs
       (res\<lparr>contacted := AList.update h timed_out (contacted res)\<rparr>)
       (emit (On_failed h timed_out) pb)"

definition async_poll :: "collab \<Rightarrow> int \<Rightarrow> int \<Rightarrow> playbook \<Rightarrow> results \<times> playbook" where
  "async_poll env secs interval pb =
     (case poller_wait env (trace pb) secs interval of
        (res, hosts_to_poll) \<Rightarrow>
          mark_timed_out hosts_to_poll res (emit (Poller_wait secs interval) pb))"

subsection \<open>\<open>_run_task_internal\<close>\<close>

definition run_task_internal ::
  "collab \<Rightarrow> play \<Rightarrow> task \<Rightarrow> playbook \<Rightarrow> results \<times> playbook" where
  "run_task_internal env pl t pb =
     (let hs = filter (\<lambda>h. \<not> stats_failures env (trace pb) h \<and> \<not> stats_dark env (trace pb) h)
                      (list_hosts (pattern_match env) (inventory pb) None);
          pb1 = pb\<lparr>inventory := restrict_to hs (inventory pb)\<rparr>;
          call = \<lparr>rc_pattern = hosts pl, rc_module_name = module_name t,
                  rc_module_args = module_args t, rc_module_vars = Some (module_vars t),
                  rc_conditional = Some (only_if t), rc_inventory = inventory pb1,
                  rc_setup_cache = SETUP_CACHE pb1\<rparr>;
          (res, pb2) =
            (if async_seconds t = 0
             then (runner_run env (trace pb1) call, emit (Runner_run call) pb1)
             else
               (let r0 = runner_run_async env (trace pb1) call (async_seconds t);
                    pb3 = emit (Stats_compute r0 False)
                            (emit (Runner_run_async call (async_seconds t)) pb1)
                in if async_poll_interval t > 0
                   then async_poll env (async_seconds t) (async_poll_interval t) pb3
                   else (r0, pb3)))
      in (res, pb2\<lparr>inventory := lift_restriction (inventory pb2)\<rparr>))"

subsection \<open>\<open>_flag_handler\<close>\<close>

text \<open>
  The loop \<open>for x in handlers\<close> with its flag \<open>found\<close>; the handlers are objects of
  the play, so the loop returns them with their new \<open>notified_by\<close>.
\<close>

fun flag_loop ::
  "string \<Rightarrow> host \<Rightarrow> task list \<Rightarrow> bool \<Rightarrow> playbook \<Rightarrow> bool \<times> task list \<times> playbook" where
  "flag_loop hn h [] found pb = (found, [], pb)"
| "flag_loop hn h (x # xs) found pb =
     (if hn = name x
      then (case flag_loop hn h xs True (emit (On_notify h (name x)) pb) of
              (f, xs', pb') \<Rightarrow> (f, x\<lparr>notified_by := notified_by x @ [h]\<rparr> # xs', pb'))
      else (case flag_loop hn h xs found pb of
              (f, xs', pb') \<Rightarrow> (f, x # xs', pb')))"

definition flag_handler ::
  "task list \<Rightarrow> string \<Rightarrow> host \<Rightarrow> playbook \<Rightarrow> error option \<times> task list \<times> playbook" where
  "flag_handler hds hn h pb =
     (case flag_loop hn h hds False pb of
        (found, hds', pb') \<Rightarrow>
          if \<not> found
          then (Some (AnsibleError (''change handler ('' @ hn @ '') is not defined'')), hds', pb')
          else (None, hds', pb'))"

subsection \<open>\<open>_run_task\<close>\<close>

text \<open>
  The inner loop of the fact merge, \<open>self.SETUP_CACHE[host][k] = v\<close> for each fact:
  indexing a host without an entry raises KeyError, assigning into an entry that is not
  a dict raises TypeError. The cache is returned as far as it was written.
\<close>

fun merge_host_facts ::
  "host \<Rightarrow> pydict \<Rightarrow> (host \<times> jval) list \<Rightarrow> error option \<times> (host \<times> jval) list" where
  "merge_host_facts h [] c = (None, c)"
| "merge_host_facts h ((k, v) # kvs) c =
     (case map_of c h of
        None \<Rightarrow> (Some (KeyError h), c)
      | Some (JDict d) \<Rightarrow> merge_host_facts h kvs (AList.update h (JDict (AList.update k v d)) c)
      | Some _ \<Rightarrow> (Some TypeError, c))"

text \<open>The outer loop over \<open>results['contacted']\<close>; \<open>iteritems\<close> of a value that is no dict raises.\<close>

fun merge_facts ::
  "(host \<times> pydict) list \<Rightarrow> (host \<times> jval) list \<Rightarrow> error option \<times> (host \<times> jval) list" where
  "merge_facts [] c = (None, c)"
| "merge_facts ((h, r) # rest) c =
     (case map_of r ''ansible_facts'' of
        None \<Rightarrow> merge_facts rest c
      | Some (JDict kvs) \<Rightarrow>
          (case merge_host_facts h kvs c of
             (None, c') \<Rightarrow> merge_facts rest c'
           | (Some e, c') \<Rightarrow> (Some e, c'))
      | Some _ \<Rightarrow> (Some AttributeError, c))"

text \<open>The loop \<open>for handler_name in task.notify\<close> for one host.\<close>

fun notify_names ::
  "collab \<Rightarrow> task \<Rightarrow> host \<Rightarrow> string list \<Rightarrow> play \<times> playbook \<Rightarrow> error option \<times> play \<times> playbook" where
  "notify_names env t h [] st = (None, st)"
| "notify_names env t h (n # ns) (pl, pb) =
     (case flag_handler (handlers pl) (template env n (module_vars t)) h pb of
        (Some e, hds', pb') \<Rightarrow> (Some e, pl\<lparr>handlers := hds'\<rparr>, pb')
      | (None, hds', pb') \<Rightarrow> notify_names env t h ns (pl\<lparr>handlers := hds'\<rparr>, pb'))"

text \<open>The loop over the contacted hosts that reported a change.\<close>

fun notify_hosts ::
  "collab \<Rightarrow> task \<Rightarrow> (host \<times> pydict) list \<Rightarrow> play \<times> playbook \<Rightarrow> error option \<times> play \<times> playbook" where
  "notify_hosts env t [] st = (None, st)"
| "notify_hosts env t ((h, r) # rest) st =
     (if truthy (case map_of r ''changed'' of None \<Rightarrow> JBool False | Some v \<Rightarrow> v)
      then (case notify_names env t h (notify t) st of
              (Some e, st') \<Rightarrow> (Some e, st')
            | (None, st') \<Rightarrow> notify_hosts env t rest st')
      else notify_hosts env t rest st)"

definition run_task ::
  "collab \<Rightarrow> task \<Rightarrow> bool \<Rightarrow> play \<times> playbook \<Rightarrow> error option \<times> play \<times> playbook" where
  "run_task env t is_handler st =
     (case st of (pl, pb) \<Rightarrow>
      (case run_task_internal env pl t (emit (On_task_start (name t) is_handler) pb) of
         (res, pb2) \<Rightarrow>
           (case merge_facts (contacted res) (SETUP_CACHE pb2) of
              (Some e, c) \<Rightarrow> (Some e, pl, pb2\<lparr>SETUP_CACHE := c\<rparr>)
            | (None, c) \<Rightarrow>
                (let pb3 = emit (Stats_compute res False) (pb2\<lparr>SETUP_CACHE := c\<rparr>)
                 in if length (notify t) > 0
                    then notify_hosts env t (contacted res) (pl, pb3)
                    else (None, pl, pb3)))))"

subsection \<open>\<open>_do_setup_step\<close>\<close>

text \<open>The loop that loads the returned facts into the cache on the first pass.\<close>

fun load_facts :: "(host \<times> pydict) list \<Rightarrow> (host \<times> jval) list \<Rightarrow> (host \<times> jval) list" where
  "load_facts [] c = c"
| "load_facts ((h, r) # rest) c =
     (case map_of r ''ansible_facts'' of
        None \<Rightarrow> load_facts rest c
      | Some f \<Rightarrow> load_facts rest (AList.update h f c))"

definition do_setup_step ::
  "collab \<Rightarrow> string list option \<Rightarrow> play \<times> playbook \<Rightarrow> results \<times> play \<times> playbook" where
  "do_setup_step env vf st =
     (case st of (pl, pb) \<Rightarrow>
      (let (pl1, pb1) =
             (case vf of
                Some fs \<Rightarrow>
                  (let pb' = emit On_setup_secondary pb;
                       hs = list_hosts (pattern_match env) (inventory pb') (Some (hosts pl))
                   in (pl\<lparr>vars := update_vars_files env (trace pb') pl hs\<rparr>,
                       emit (Update_vars_files hs) pb'))
              | None \<Rightarrow> (pl, emit On_setup_primary pb));
           host_list =
             filter (\<lambda>h. \<not> (stats_failures env (trace pb1) h \<or> stats_dark env (trace pb1) h))
                    (list_hosts (pattern_match env) (inventory pb1) (Some (hosts pl1)));
           pb2 = pb1\<lparr>inventory := restrict_to host_list (inventory pb1)\<rparr>;
           call = \<lparr>rc_pattern = hosts pl1, rc_module_name = ''setup'',
                   rc_module_args = vars pl1, rc_module_vars = None,
                   rc_conditional = None, rc_inventory = inventory pb2,
                   rc_setup_cache = SETUP_CACHE pb2\<rparr>;
           setup_results = runner_run env (trace pb2) call;
           pb3 = emit (Stats_compute setup_results True) (emit (Runner_run call) pb2);
           pb4 = pb3\<lparr>inventory := lift_restriction (inventory pb3)\<rparr>;
           pb5 = (if vf = None
                  then pb4\<lparr>SETUP_CACHE := load_facts (contacted setup_results) (SETUP_CACHE pb4)\<rparr>
                  else pb4)
       in (setup_results, pl1, pb5)))"

subsection \<open>\<open>_run_play\<close> and \<open>run\<close>\<close>

text \<open>The loop \<open>for task in play.tasks()\<close>.\<close>

fun run_tasks ::
  "collab \<Rightarrow> task list \<Rightarrow> play \<times> playbook \<Rightarrow> error option \<times> play \<times> playbook" where
  "run_tasks env [] st = (None, st)"
| "run_tasks env (t # ts) st =
     (case run_task env t False st of
        (Some e, st') \<Rightarrow> (Some e, st')
      | (None, st') \<Rightarrow> run_tasks env ts st')"

text \<open>
  The loop \<open>for handler in play.handlers()\<close>, by position: the handler objects are those
  of the play, so the \<open>notified_by\<close> a handler is tested with is the one it has when the
  loop reaches it. No exception handler surrounds \<open>_run_task\<close>: when it raises, the
  statement \<open>lift_restriction()\<close> after it is not executed.
\<close>

fun run_handlers ::
  "collab \<Rightarrow> nat list \<Rightarrow> play \<times> playbook \<Rightarrow> error option \<times> play \<times> playbook" where
  "run_handlers env [] st = (None, st)"
| "run_handlers env (i # js) (pl, pb) =
     (let handler = handlers pl ! i
      in if length (notified_by handler) > 0
         then (case run_task env handler True
                      (pl, pb\<lparr>inventory := restrict_to (notified_by handler) (inventory pb)\<rparr>) of
                 (Some e, st') \<Rightarrow> (Some e, st')
               | (None, pl', pb') \<Rightarrow>
                   run_handlers env js (pl', pb'\<lparr>inventory := lift_restriction (inventory pb')\<rparr>))
         else run_handlers env js (pl, pb))"

definition run_play ::
  "collab \<Rightarrow> play \<times> playbook \<Rightarrow> error option \<times> play \<times> playbook" where
  "run_play env st =
     (case st of (pl, pb) \<Rightarrow>
      (let st1 = snd (do_setup_step env None (pl, emit (On_play_start (play_name pl)) pb));
           st2 = (case vars_files (fst st1) of
                    None \<Rightarrow> st1
                  | Some fs \<Rightarrow> if length fs > 0
                               then snd (do_setup_step env (Some fs) st1)
                               else st1)
       in (case run_tasks env (tasks (fst st2)) st2 of
             (Some e, st3) \<Rightarrow> (Some e, st3)
           | (None, st3) \<Rightarrow> run_handlers env [0 ..< length (handlers (fst st3))] st3)))"

text \<open>The loop \<open>for play_ds in self.playbook\<close>; each play arrives as \<open>Play(self, play_ds)\<close> built it.\<close>

fun run_plays :: "collab \<Rightarrow> play list \<Rightarrow> playbook \<Rightarrow> error option \<times> playbook" where
  "run_plays env [] pb = (None, pb)"
| "run_plays env (p # ps) pb =
     (case run_play env (p, pb\<lparr>SETUP_CACHE := []\<rparr>) of
        (Some e, pl', pb') \<Rightarrow> (Some e, pb')
      | (None, pl', pb') \<Rightarrow> run_plays env ps pb')"

text \<open>The loop that builds the summary, one entry per key of \<open>stats.processed\<close>.\<close>

definition summarize_all :: "collab \<Rightarrow> event list \<Rightarrow> (host \<times> jval) list" where
  "summarize_all env tr =
     fold (\<lambda>h res. AList.update h (stats_summarize env tr h) res) (stats_processed env tr) []"

definition run ::
  "collab \<Rightarrow> play list \<Rightarrow> playbook \<Rightarrow> (error + (host \<times> jval) list) \<times> playbook" where
  "run env plays pb =
     (case run_plays env plays (emit On_start pb) of
        (Some e, pb') \<Rightarrow> (Inl e, pb')
      | (None, pb') \<Rightarrow> (Inr (summarize_all env (trace pb')), pb'))"

subsection \<open>A concrete set of collaborators\<close>

text \<open>
  Modelled from the spec: the Runner class is not part of the source file. It is given a
  pattern and the inventory and executes the module against the hosts the inventory
  lists for that pattern, so the restriction in force decides whom it reaches.
\<close>

definition dispatch_set :: "collab \<Rightarrow> runner_call \<Rightarrow> host list" where
  "dispatch_set env c = list_hosts (pattern_match env) (rc_inventory c) (Some (rc_pattern c))"

text \<open>The hosts the orchestrator leaves out: members of \<open>stats.failures\<close> or \<open>stats.dark\<close>.\<close>

definition excluded :: "collab \<Rightarrow> event list \<Rightarrow> host \<Rightarrow> bool" where
  "excluded env tr h = (stats_failures env tr h \<or> stats_dark env tr h)"

text \<open>
  A scripted Runner for the examples: the \<open>setup\<close> module returns its arguments as the
  host's facts, any other module returns for each host the result its arguments list
  for that host (and the empty result when they list none).
\<close>

definition scripted_result :: "runner_call \<Rightarrow> host \<Rightarrow> pydict" where
  "scripted_result c h =
     (if rc_module_name c = ''setup'' then [(''ansible_facts'', rc_module_args c)]
      else (case rc_module_args c of
              JDict d \<Rightarrow> (case map_of d h of Some (JDict r) \<Rightarrow> r | _ \<Rightarrow> [])
            | _ \<Rightarrow> []))"

definition simple_match :: "string \<Rightarrow> host \<Rightarrow> bool" where
  "simple_match p h = (p = ''all'' \<or> p = h)"

definition scripted_run :: "event list \<Rightarrow> runner_call \<Rightarrow> results" where
  "scripted_run tr c =
     \<lparr>contacted = map (\<lambda>h. (h, scripted_result c h))
                       (list_hosts simple_match (rc_inventory c) (Some (rc_pattern c))),
      dark = []\<rparr>"

definition scripted_run_async :: "event list \<Rightarrow> runner_call \<Rightarrow> int \<Rightarrow> results" where
  "scripted_run_async tr c secs =
     \<lparr>contacted = map (\<lambda>h. (h, [(''started'', JInt 1)]))
                       (list_hosts simple_match (rc_inventory c) (Some (rc_pattern c))),
      dark = []\<rparr>"

text \<open>The Poller of the last asynchronous launch: a host with an empty scripted result never reports.\<close>

fun last_async :: "event list \<Rightarrow> runner_call option \<Rightarrow> runner_call option" where
  "last_async [] acc = acc"
| "last_async (Runner_run_async c secs # tr) acc = last_async tr (Some c)"
| "last_async (e # tr) acc = last_async tr acc"

definition scripted_wait :: "event list \<Rightarrow> int \<Rightarrow> int \<Rightarrow> results \<times> host list" where
  "scripted_wait tr secs interval =
     (case last_async tr None of
        None \<Rightarrow> (\<lparr>contacted = [], dark = []\<rparr>, [])
      | Some c \<Rightarrow>
          (let hs = list_hosts simple_match (rc_inventory c) (Some (rc_pattern c))
           in (\<lparr>contacted = map (\<lambda>h. (h, scripted_result c h))
                                 (filter (\<lambda>h. scripted_result c h \<noteq> []) hs),
                dark = []\<rparr>,
               filter (\<lambda>h. scripted_result c h = []) hs)))"

text \<open>
  Modelled from the spec: the Stats class is not part of the source file. \<open>compute\<close>
  folds results into per-host counters and into the membership sets \<open>failures\<close> and
  \<open>dark\<close>: a contacted host whose result reports \<open>failed\<close> enters \<open>failures\<close>, a host
  listed under \<open>dark\<close> enters \<open>dark\<close>, a setup fold counts neither ok nor changed, and
  \<open>processed\<close> holds every host that appeared in a folded result. The ledger's state is
  the list of folds it has received.
\<close>

fun folds :: "event list \<Rightarrow> (results \<times> bool) list" where
  "folds [] = []"
| "folds (Stats_compute res setup # tr) = (res, setup) # folds tr"
| "folds (e # tr) = folds tr"

definition reports :: "string \<Rightarrow> pydict \<Rightarrow> bool" where
  "reports k r = truthy (case map_of r k of None \<Rightarrow> JBool False | Some v \<Rightarrow> v)"

definition ledger_failures :: "event list \<Rightarrow> host \<Rightarrow> bool" where
  "ledger_failures tr h =
     list_ex (\<lambda>f. list_ex (\<lambda>hr. fst hr = h \<and> reports ''failed'' (snd hr)) (contacted (fst f)))
             (folds tr)"

definition ledger_dark :: "event list \<Rightarrow> host \<Rightarrow> bool" where
  "ledger_dark tr h = list_ex (\<lambda>f. list_ex (\<lambda>hr. fst hr = h) (dark (fst f))) (folds tr)"

definition ledger_processed :: "event list \<Rightarrow> host list" where
  "ledger_processed tr =
     remdups (concat (map (\<lambda>f. map fst (contacted (fst f)) @ map fst (dark (fst f))) (folds tr)))"

definition ledger_count :: "(bool \<Rightarrow> pydict \<Rightarrow> bool) \<Rightarrow> event list \<Rightarrow> host \<Rightarrow> int" where
  "ledger_count p tr h =
     int (length (concat (map (\<lambda>f. filter (\<lambda>hr. fst hr = h \<and> p (snd f) (snd hr)) (contacted (fst f)))
                              (folds tr))))"

definition ledger_summarize :: "event list \<Rightarrow> host \<Rightarrow> jval" where
  "ledger_summarize tr h =
     JDict [(''ok'', JInt (ledger_count (\<lambda>setup r. \<not> setup \<and> \<not> reports ''failed'' r) tr h)),
            (''changed'', JInt (ledger_count (\<lambda>setup r. \<not> setup \<and> \<not> reports ''failed'' r
                                                     \<and> reports ''changed'' r) tr h)),
            (''failures'', JInt (ledger_count (\<lambda>setup r. reports ''failed'' r) tr h)),
            (''unreachable'',
               JInt (int (length (concat (map (\<lambda>f. filter (\<lambda>hr. fst hr = h) (dark (fst f)))
                                              (folds tr))))))]"

definition scripted :: collab where
  "scripted =
     \<lparr>pattern_match = simple_match,
      runner_run = scripted_run,
      runner_run_async = scripted_run_async,
      poller_wait = scripted_wait,
      stats_failures = ledger_failures,
      stats_dark = ledger_dark,
      stats_processed = ledger_processed,
      stats_summarize = ledger_summarize,
      template = (\<lambda>text vs. text),
      update_vars_files = (\<lambda>tr pl hs. vars pl)\<rparr>"

text \<open>A fresh orchestrator over three hosts, and a task skeleton for the examples.\<close>

definition fresh :: playbook where
  "fresh = \<lparr>SETUP_CACHE = [],
            inventory = \<lparr>inv_hosts = [''h1'', ''h2'', ''h3''], restrictions = []\<rparr>,
            trace = []\<rparr>"

definition mk_task :: "string \<Rightarrow> (string \<times> jval) list \<Rightarrow> string list \<Rightarrow> task" where
  "mk_task n script ns =
     \<lparr>name = n, module_name = ''command'', module_args = JDict script, module_vars = [],
      notify = ns, only_if = ''True'', async_seconds = 0, async_poll_interval = 0,
      notified_by = []\<rparr>"

definition mk_play :: "task list \<Rightarrow> task list \<Rightarrow> play" where
  "mk_play ts hds =
     \<lparr>play_name = ''site'', hosts = ''all'', vars = JDict [(''os'', JStr ''linux'')],
      vars_files = None, tasks = ts, handlers = hds\<rparr>"

subsection \<open>What one call of the orchestrator computes\<close>

text \<open>
  The working host set, the Runner call, the events appended to the trace and the
  results returned by a task dispatch and by a setup step, named piece by piece, and
  the state of a play after its setup steps. The lemmas below prove that the functions
  of the orchestrator compute exactly these.
\<close>

definition working_set :: "collab \<Rightarrow> playbook \<Rightarrow> string option \<Rightarrow> host list" where
  "working_set env pb pat =
     filter (\<lambda>h. \<not> stats_failures env (trace pb) h \<and> \<not> stats_dark env (trace pb) h)
            (list_hosts (pattern_match env) (inventory pb) pat)"

definition task_call :: "collab \<Rightarrow> play \<Rightarrow> task \<Rightarrow> playbook \<Rightarrow> runner_call" where
  "task_call env pl t pb =
     \<lparr>rc_pattern = hosts pl, rc_module_name = module_name t,
      rc_module_args = module_args t, rc_module_vars = Some (module_vars t),
      rc_conditional = Some (only_if t),
      rc_inventory = restrict_to (working_set env pb None) (inventory pb),
      rc_setup_cache = SETUP_CACHE pb\<rparr>"

definition launch :: "collab \<Rightarrow> play \<Rightarrow> task \<Rightarrow> playbook \<Rightarrow> event" where
  "launch env pl t pb =
     (if async_seconds t = 0 then Runner_run (task_call env pl t pb)
      else Runner_run_async (task_call env pl t pb) (async_seconds t))"

definition launch_events :: "collab \<Rightarrow> play \<Rightarrow> task \<Rightarrow> playbook \<Rightarrow> event list" where
  "launch_events env pl t pb =
     [Runner_run_async (task_call env pl t pb) (async_seconds t),
      Stats_compute (runner_run_async env (trace pb) (task_call env pl t pb) (async_seconds t)) False]"

definition task_events :: "collab \<Rightarrow> play \<Rightarrow> task \<Rightarrow> playbook \<Rightarrow> event list" where
  "task_events env pl t pb =
     (if async_seconds t = 0 then [Runner_run (task_call env pl t pb)]
      else if async_poll_interval t > 0
      then launch_events env pl t pb
           @ Poller_wait (async_seconds t) (async_poll_interval t)
           # map (\<lambda>h. On_failed h timed_out)
                 (snd (poller_wait env (trace pb @ launch_events env pl t pb)
                         (async_seconds t) (async_poll_interval t)))
      else launch_events env pl t pb)"

definition task_results :: "collab \<Rightarrow> play \<Rightarrow> task \<Rightarrow> playbook \<Rightarrow> results" where
  "task_results env pl t pb =
     (if async_seconds t = 0 then runner_run env (trace pb) (task_call env pl t pb)
      else if async_poll_interval t > 0
      then (case poller_wait env (trace pb @ launch_events env pl t pb)
                   (async_seconds t) (async_poll_interval t) of
              (res, pending) \<Rightarrow>
                res\<lparr>contacted := fold (\<lambda>h c. AList.update h timed_out c) pending (contacted res)\<rparr>)
      else runner_run_async env (trace pb) (task_call env pl t pb) (async_seconds t))"

definition setup_prelude :: "collab \<Rightarrow> string list option \<Rightarrow> play \<Rightarrow> playbook \<Rightarrow> event list" where
  "setup_prelude env vf pl pb =
     (case vf of
        None \<Rightarrow> [On_setup_primary]
      | Some fs \<Rightarrow> [On_setup_secondary,
                    Update_vars_files (list_hosts (pattern_match env) (inventory pb) (Some (hosts pl)))])"

definition setup_play :: "collab \<Rightarrow> string list option \<Rightarrow> play \<Rightarrow> playbook \<Rightarrow> play" where
  "setup_play env vf pl pb =
     (case vf of
        None \<Rightarrow> pl
      | Some fs \<Rightarrow> pl\<lparr>vars := update_vars_files env (trace pb @ [On_setup_secondary]) pl
                                (list_hosts (pattern_match env) (inventory pb) (Some (hosts pl)))\<rparr>)"

definition setup_call :: "collab \<Rightarrow> string list option \<Rightarrow> play \<Rightarrow> playbook \<Rightarrow> runner_call" where
  "setup_call env vf pl pb =
     \<lparr>rc_pattern = hosts pl, rc_module_name = ''setup'',
      rc_module_args = vars (setup_play env vf pl pb), rc_module_vars = None,
      rc_conditional = None,
      rc_inventory =
        restrict_to (working_set env (pb\<lparr>trace := trace pb @ setup_prelude env vf pl pb\<rparr>)
                       (Some (hosts pl)))
                    (inventory pb),
      rc_setup_cache = SETUP_CACHE pb\<rparr>"

definition setup_results :: "collab \<Rightarrow> string list option \<Rightarrow> play \<Rightarrow> playbook \<Rightarrow> results" where
  "setup_results env vf pl pb =
     runner_run env (trace pb @ setup_prelude env vf pl pb) (setup_call env vf pl pb)"

definition after_setup :: "collab \<Rightarrow> play \<times> playbook \<Rightarrow> play \<times> playbook" where
  "after_setup env st =
     (let st1 = snd (do_setup_step env None (fst st, emit (On_play_start (play_name (fst st))) (snd st)))
      in case vars_files (fst st1) of
           None \<Rightarrow> st1
         | Some fs \<Rightarrow> if length fs > 0 then snd (do_setup_step env (Some fs) st1) else st1)"

subsection \<open>Notions about the trace and the state\<close>

text \<open>
  The events a step has appended, and what is read off a list of events: the Runner
  calls, the task starts announced, the number of \<open>on_failed\<close> calls for a host.
  \<open>ran\<close> gives the starts of the handlers that a list of flags selects from the
  handler names.
\<close>

definition new_events :: "playbook \<Rightarrow> playbook \<Rightarrow> event list" where
  "new_events pb pb' = drop (length (trace pb)) (trace pb')"

fun call_of :: "event \<Rightarrow> runner_call option" where
  "call_of (Runner_run c) = Some c"
| "call_of (Runner_run_async c secs) = Some c"
| "call_of e = None"

fun calls :: "event list \<Rightarrow> runner_call list" where
  "calls [] = []"
| "calls (e # evs) = (case call_of e of None \<Rightarrow> calls evs | Some c \<Rightarrow> c # calls evs)"

fun starts :: "event list \<Rightarrow> (string \<times> bool) list" where
  "starts [] = []"
| "starts (On_task_start n b # evs) = (n, b) # starts evs"
| "starts (e # evs) = starts evs"

definition ran :: "string list \<Rightarrow> bool list \<Rightarrow> (string \<times> bool) list" where
  "ran names bs = map (\<lambda>x. (fst x, True)) (filter snd (zip names bs))"

definition count_failed :: "host \<Rightarrow> event list \<Rightarrow> nat" where
  "count_failed h evs =
     length (filter (\<lambda>e. case e of On_failed h' r \<Rightarrow> h' = h | _ \<Rightarrow> False) evs)"

definition is_poll :: "event \<Rightarrow> bool" where
  "is_poll e = (case e of Poller_wait s i \<Rightarrow> True | _ \<Rightarrow> False)"

definition is_notify :: "event \<Rightarrow> bool" where
  "is_notify e = (case e of On_notify h n \<Rightarrow> True | _ \<Rightarrow> False)"

text \<open>
  \<open>same_play\<close> relates a play to itself after notifications: nothing but the
  \<open>notified_by\<close> lists of its handlers may differ. \<open>notify_step\<close> is what handler
  flagging does to the state: it only notifies.
\<close>

definition same_play :: "play \<Rightarrow> play \<Rightarrow> bool" where
  "same_play pl pl' =
     (pl'\<lparr>handlers := handlers pl\<rparr> = pl
      \<and> map (\<lambda>x. x\<lparr>notified_by := []\<rparr>) (handlers pl') = map (\<lambda>x. x\<lparr>notified_by := []\<rparr>) (handlers pl))"

definition notify_step :: "play \<times> playbook \<Rightarrow> play \<times> playbook \<Rightarrow> bool" where
  "notify_step st st' =
     (same_play (fst st) (fst st')
      \<and> inventory (snd st') = inventory (snd st)
      \<and> SETUP_CACHE (snd st') = SETUP_CACHE (snd st)
      \<and> (\<exists>evs. trace (snd st') = trace (snd st) @ evs \<and> list_all is_notify evs))"

text \<open>
  For the fact merge: a contacted host that needs a cache entry it does not have, that
  is, one that returns a non-empty facts dict and has no entry; a cache whose entries
  are dicts; results whose \<open>ansible_facts\<close> are dicts.
\<close>

definition needs_entry :: "(host \<times> jval) list \<Rightarrow> host \<times> pydict \<Rightarrow> bool" where
  "needs_entry c hr =
     (case map_of (snd hr) ''ansible_facts'' of
        Some (JDict kvs) \<Rightarrow> kvs \<noteq> [] \<and> map_of c (fst hr) = None
      | _ \<Rightarrow> False)"

definition dict_entries :: "(host \<times> jval) list \<Rightarrow> bool" where
  "dict_entries c = list_all (\<lambda>hv. case snd hv of JDict d \<Rightarrow> True | _ \<Rightarrow> False) c"

definition dict_facts :: "(host \<times> pydict) list \<Rightarrow> bool" where
  "dict_facts cs =
     list_all (\<lambda>hr. case map_of (snd hr) ''ansible_facts'' of
                      None \<Rightarrow> True | Some (JDict kvs) \<Rightarrow> True | Some _ \<Rightarrow> False) cs"

text \<open>
  A property \<open>ok\<close> of an event relative to the trace before it; \<open>oks\<close> checks it
  along a list of events, \<open>keeps\<close> says that a step only appends events that have it.
  \<open>admits\<close> collects what the Runner calls of the orchestrator must satisfy for
  \<open>ok\<close> to hold of every event of a run. Two such properties: a Runner call
  reaches no excluded host, and a Runner call that directly follows
  \<open>on_setup_primary\<close> is handed the empty cache.
\<close>

fun oks :: "(event list \<Rightarrow> event \<Rightarrow> bool) \<Rightarrow> event list \<Rightarrow> event list \<Rightarrow> bool" where
  "oks ok tr [] = True"
| "oks ok tr (e # evs) = (ok tr e \<and> oks ok (tr @ [e]) evs)"

definition keeps :: "(event list \<Rightarrow> event \<Rightarrow> bool) \<Rightarrow> playbook \<Rightarrow> playbook \<Rightarrow> bool" where
  "keeps ok pb pb' =
     (take (length (trace pb)) (trace pb') = trace pb \<and> oks ok (trace pb) (new_events pb pb'))"

definition admits :: "collab \<Rightarrow> (event list \<Rightarrow> event \<Rightarrow> bool) \<Rightarrow> bool" where
  "admits env ok =
     ((\<forall>tr e. call_of e = None \<longrightarrow> ok tr e)
      \<and> (\<forall>pl t pb n b. ok (trace pb @ [On_task_start n b])
                          (launch env pl t (emit (On_task_start n b) pb)))
      \<and> (\<forall>pl pb fs. ok (trace pb @ setup_prelude env (Some fs) pl pb)
                        (Runner_run (setup_call env (Some fs) pl pb)))
      \<and> (\<forall>pl pb. SETUP_CACHE pb = [] \<longrightarrow>
                    ok (trace pb @ [On_setup_primary]) (Runner_run (setup_call env None pl pb))))"

definition dispatch_ok :: "collab \<Rightarrow> event list \<Rightarrow> event \<Rightarrow> bool" where
  "dispatch_ok env tr e =
     (case call_of e of
        None \<Rightarrow> True
      | Some c \<Rightarrow> list_all (\<lambda>h. \<not> excluded env tr h) (dispatch_set env c))"

definition primary_fresh :: "event list \<Rightarrow> event \<Rightarrow> bool" where
  "primary_fresh tr e =
     (case e of
        Runner_run c \<Rightarrow> (tr \<noteq> [] \<and> last tr = On_setup_primary \<longrightarrow> rc_setup_cache c = [])
      | _ \<Rightarrow> True)"

subsection \<open>Tasks, plays and collaborators of the examples\<close>

definition t_facts :: task where
  "t_facts = mk_task ''facts'' [(''h1'', JDict [(''ansible_facts'', JDict [(''a'', JInt 1)])])] []"

definition t_nofacts :: task where
  "t_nofacts = mk_task ''facts'' [(''h1'', JDict [(''ansible_facts'', JDict [])])] []"

definition t_poll :: task where
  "t_poll = (mk_task ''long'' [(''h2'', JDict [(''changed'', JBool True)]),
                               (''h3'', JDict [(''rc'', JInt 0)])] [])
              \<lparr>async_seconds := 10, async_poll_interval := 2\<rparr>"

definition t_forget :: task where
  "t_forget = (mk_task ''launch'' [] [])\<lparr>async_seconds := 10\<rparr>"

definition t_change :: task where
  "t_change = mk_task ''deploy'' [(''h1'', JDict [(''changed'', JBool True)]),
                                  (''h2'', JDict [(''failed'', JInt 1)])] [''restart'']"

definition t_touch :: task where
  "t_touch = mk_task ''touch'' [] []"

definition h_restart :: task where
  "h_restart = mk_task ''restart'' [(''h1'', JDict [(''changed'', JBool True)])] [''restart-xyz'']"

definition p_site :: play where
  "p_site = mk_play [] []"

definition p_broken :: play where
  "p_broken = mk_play [t_change] [h_restart]"

definition p_deploy :: play where
  "p_deploy = mk_play [t_change, t_touch] [h_restart\<lparr>notify := []\<rparr>]"

definition p_notified :: play where
  "p_notified = mk_play [] [h_restart\<lparr>notify := [], notified_by := [''h1'']\<rparr>]"

text \<open>
  The handler loop of a play: the state the tasks leave, the state in which the loop
  reaches handler \<open>k\<close>, and whether that handler then runs.
\<close>

definition after_tasks :: "collab \<Rightarrow> play \<times> playbook \<Rightarrow> play \<times> playbook" where
  "after_tasks env st = snd (run_tasks env (tasks (fst (after_setup env st))) (after_setup env st))"

definition reached :: "collab \<Rightarrow> play \<times> playbook \<Rightarrow> nat \<Rightarrow> play \<times> playbook" where
  "reached env st k = snd (run_handlers env [0 ..< k] (after_tasks env st))"

definition runs :: "collab \<Rightarrow> play \<times> playbook \<Rightarrow> nat \<Rightarrow> bool" where
  "runs env st k = (notified_by (handlers (fst (reached env st k)) ! k) \<noteq> [])"

definition p_quiet :: play where
  "p_quiet = mk_play [t_touch] [h_restart\<lparr>notify := []\<rparr>]"

text \<open>
  Modelled from the spec: what the orchestrator relies on from the Runner and the
  Poller, which are not part of the source file. A Runner executes its module against
  the hosts the inventory lists for its pattern, so the hosts it reports as contacted
  are among those it was dispatched to, and a Poller reports hosts of the asynchronous
  launch it polls; the \<open>ansible_facts\<close> of a result is a map, as the result record
  shape has it; and the setup module pulls back the facts of every host it reaches:
  each host a setup call is dispatched to is reported dark, or is contacted with a
  result that reports \<open>failed\<close> or carries \<open>ansible_facts\<close>.
\<close>

definition runner_contract :: "collab \<Rightarrow> bool" where
  "runner_contract env =
     ((\<forall>tr c. set (map fst (contacted (runner_run env tr c))) \<subseteq> set (dispatch_set env c)
               \<and> dict_facts (contacted (runner_run env tr c)))
      \<and> (\<forall>tr c secs.
            set (map fst (contacted (runner_run_async env tr c secs))) \<subseteq> set (dispatch_set env c)
            \<and> dict_facts (contacted (runner_run_async env tr c secs)))
      \<and> (\<forall>tr secs interval.
            dict_facts (contacted (fst (poller_wait env tr secs interval)))
            \<and> (\<forall>c. last_async tr None = Some c \<longrightarrow>
                   set (map fst (contacted (fst (poller_wait env tr secs interval))))
                     \<subseteq> set (dispatch_set env c)))
      \<and> (\<forall>tr c. rc_module_name c = ''setup'' \<longrightarrow>
            (\<forall>h\<in>set (dispatch_set env c).
               h \<in> set (map fst (dark (runner_run env tr c)))
               \<or> (\<exists>r. (h, r) \<in> set (contacted (runner_run env tr c))
                      \<and> (reports ''failed'' r \<or> map_of r ''ansible_facts'' \<noteq> None)))))"

text \<open>
  Modelled from the spec: what the orchestrator relies on from the Stats ledger, which
  is not part of the source file. \<open>compute\<close> enters a contacted host whose result
  reports \<open>failed\<close> into \<open>failures\<close> and a dark host into \<open>dark\<close>, in a setup
  fold as in any other, and a host once in either set stays there.
\<close>

definition stats_contract :: "collab \<Rightarrow> bool" where
  "stats_contract env =
     ((\<forall>tr e h. excluded env tr h \<longrightarrow> excluded env (tr @ [e]) h)
      \<and> (\<forall>tr res setup h r. (h, r) \<in> set (contacted res) \<and> reports ''failed'' r \<longrightarrow>
             stats_failures env (tr @ [Stats_compute res setup]) h)
      \<and> (\<forall>tr res setup h r. (h, r) \<in> set (dark res) \<longrightarrow>
             stats_dark env (tr @ [Stats_compute res setup]) h))"

text \<open>
  A play is configured when each name its tasks and handlers notify, once templated, is
  the name of one of its handlers. A notify without a handler is an error of the
  playbook, not the failure of a host.
\<close>

definition notifies_defined :: "collab \<Rightarrow> task list \<Rightarrow> task \<Rightarrow> bool" where
  "notifies_defined env hds t =
     list_all (\<lambda>n. list_ex (\<lambda>x. name x = template env n (module_vars t)) hds) (notify t)"

definition play_configured :: "collab \<Rightarrow> play \<Rightarrow> bool" where
  "play_configured env pl = list_all (notifies_defined env (handlers pl)) (tasks pl @ handlers pl)"

text \<open>
  The state of the setup cache that keeps the fact merge from raising: every entry is a
  dict, and every host the inventory lists for the pattern of the play is excluded or
  has an entry.
\<close>

definition covered :: "collab \<Rightarrow> play \<Rightarrow> playbook \<Rightarrow> bool" where
  "covered env pl pb =
     (dict_entries (SETUP_CACHE pb)
      \<and> list_all (\<lambda>h. excluded env (trace pb) h \<or> map_of (SETUP_CACHE pb) h \<noteq> None)
                  (list_hosts (pattern_match env) (inventory pb) (Some (hosts pl))))"

text \<open>
  The collaborators \<open>rough\<close>: the setup module fails on host \<open>h3\<close> and returns
  facts for the other hosts; every other module cannot reach host \<open>h2\<close> and returns
  facts and a change for the other hosts.
\<close>

definition rough_run :: "event list \<Rightarrow> runner_call \<Rightarrow> results" where
  "rough_run tr c =
     (let hs = list_hosts simple_match (rc_inventory c) (Some (rc_pattern c))
      in if rc_module_name c = ''setup''
         then \<lparr>contacted = map (\<lambda>h. (h, if h = ''h3'' then [(''failed'', JInt 1)]
                                          else [(''ansible_facts'', JDict [(''os'', JStr ''linux'')])]))
                                hs,
               dark = []\<rparr>
         else \<lparr>contacted = map (\<lambda>h. (h, [(''changed'', JBool True),
                                          (''ansible_facts'', JDict [(''role'', JStr ''web'')])]))
                                (filter (\<lambda>h. h \<noteq> ''h2'') hs),
               dark = map (\<lambda>h. (h, [(''msg'', JStr ''unreachable'')]))
                          (filter (\<lambda>h. h = ''h2'') hs)\<rparr>)"

definition rough :: collab where
  "rough = scripted\<lparr>runner_run := rough_run,
                    poller_wait := (\<lambda>tr secs interval. (\<lparr>contacted = [], dark = []\<rparr>, []))\<rparr>"

section \<open>Properties\<close>

subsection \<open>\<open>_run_play\<close> in terms of its setup steps\<close>

text \<open>
  \<open>_run_play\<close> runs the tasks and the handlers from the state its setup steps leave.
  Examples are evaluated with this equation.
\<close>

lemma run_play_eq:
  "run_play env st =
     (case run_tasks env (tasks (fst (after_setup env st))) (after_setup env st) of
        (Some e, st3) \<Rightarrow> (Some e, st3)
      | (None, st3) \<Rightarrow> run_handlers env [0 ..< length (handlers (fst st3))] st3)"
  by (cases st) (simp add: run_play_def after_setup_def Let_def)

declare run_play_eq [code]

subsection \<open>Handler flagging and the fact merge\<close>

lemma trace_emit: "trace (emit e pb) = trace pb @ [e]"
  and inventory_emit: "inventory (emit e pb) = inventory pb"
  and cache_emit: "SETUP_CACHE (emit e pb) = SETUP_CACHE pb"
  by (simp_all add: emit_def)

lemma flag_loop_eq:
  "flag_loop hn h xs found pb =
     (found \<or> (\<exists>x\<in>set xs. name x = hn),
      map (\<lambda>x. if name x = hn then x\<lparr>notified_by := notified_by x @ [h]\<rparr> else x) xs,
      pb\<lparr>trace := trace pb @ map (\<lambda>x. On_notify h (name x)) (filter (\<lambda>x. name x = hn) xs)\<rparr>)"
  by (induction xs arbitrary: found pb) (auto simp: emit_def)

lemma flag_handler_eq:
  "flag_handler hds hn h pb =
     (if \<exists>x\<in>set hds. name x = hn
      then (None,
            map (\<lambda>x. if name x = hn then x\<lparr>notified_by := notified_by x @ [h]\<rparr> else x) hds,
            pb\<lparr>trace := trace pb @ map (\<lambda>x. On_notify h (name x)) (filter (\<lambda>x. name x = hn) hds)\<rparr>)
      else (Some (AnsibleError (''change handler ('' @ hn @ '') is not defined'')), hds, pb))"
proof (cases "\<exists>x\<in>set hds. name x = hn")
  case True
  then show ?thesis by (simp add: flag_handler_def flag_loop_eq)
next
  case False
  then have "filter (\<lambda>x. name x = hn) hds = []"
    by (simp add: filter_empty_conv)
  moreover from False
  have "map (\<lambda>x. if name x = hn then x\<lparr>notified_by := notified_by x @ [h]\<rparr> else x) hds = hds"
    by (simp add: map_idI)
  ultimately show ?thesis using False
    by (simp add: flag_handler_def flag_loop_eq)
qed

lemma dict_entries_update:
  "dict_entries c \<Longrightarrow> dict_entries (AList.update h (JDict d) c)"
  by (induction c) (auto simp: dict_entries_def)

lemma dict_entries_lookup:
  "dict_entries c \<Longrightarrow> map_of c h = Some v \<Longrightarrow> \<exists>d. v = JDict d"
  by (induction c) (auto simp: dict_entries_def split: if_splits jval.splits)

lemma keys_update_present:
  "map_of c h = Some v \<Longrightarrow> map fst (AList.update h w c) = map fst c"
  by (induction c) (auto split: if_splits)

lemma merge_host_facts_present:
  "dict_entries c \<Longrightarrow> map_of c h \<noteq> None \<Longrightarrow>
   fst (merge_host_facts h kvs c) = None
   \<and> map fst (snd (merge_host_facts h kvs c)) = map fst c
   \<and> dict_entries (snd (merge_host_facts h kvs c))"
proof (induction kvs arbitrary: c)
  case Nil
  then show ?case by simp
next
  case (Cons kv kvs)
  obtain k v where kv: "kv = (k, v)" by (cases kv)
  from Cons.prems obtain w where w: "map_of c h = Some w" by auto
  with Cons.prems obtain d where d: "w = JDict d" using dict_entries_lookup by blast
  let ?c = "AList.update h (JDict (AList.update k v d)) c"
  have 1: "dict_entries ?c" using Cons.prems(1) by (rule dict_entries_update)
  have 2: "map_of ?c h \<noteq> None" by (simp add: update_conv')
  have 3: "map fst ?c = map fst c" using w by (rule keys_update_present)
  from Cons.IH[OF 1 2] 3 show ?case by (simp add: kv w d)
qed

lemma merge_host_facts_absent:
  "map_of c h = None \<Longrightarrow>
   merge_host_facts h kvs c = (if kvs = [] then (None, c) else (Some (KeyError h), c))"
  by (cases kvs) auto

lemma absent_keys:
  assumes "map fst c' = map fst c"
  shows "(map_of c' h = None) = (map_of c h = None)"
proof -
  have "fst ` set c' = fst ` set c" using assms by (metis set_map)
  then show ?thesis by (simp add: map_of_eq_None_iff)
qed

lemma needs_entry_keys:
  assumes "map fst c' = map fst c"
  shows "needs_entry c' hr = needs_entry c hr"
  by (simp add: needs_entry_def absent_keys[OF assms] split: option.splits jval.splits)

lemma merge_facts_find:
  "dict_facts cs \<Longrightarrow> dict_entries c \<Longrightarrow>
   fst (merge_facts cs c)
     = (case find (needs_entry c) cs of None \<Rightarrow> None | Some hr \<Rightarrow> Some (KeyError (fst hr)))
   \<and> map fst (snd (merge_facts cs c)) = map fst c"
proof (induction cs arbitrary: c)
  case Nil
  then show ?case by simp
next
  case (Cons hr cs)
  obtain h r where hr: "hr = (h, r)" by (cases hr)
  from Cons.prems(1) have rest: "dict_facts cs" by (simp add: dict_facts_def)
  show ?case
  proof (cases "map_of r ''ansible_facts''")
    case None
    then have "\<not> needs_entry c (h, r)" by (simp add: needs_entry_def)
    with None Cons.IH[OF rest Cons.prems(2)] show ?thesis by (simp add: hr)
  next
    case (Some v)
    with Cons.prems(1) obtain kvs where v: "v = JDict kvs"
      by (auto simp: dict_facts_def hr split: jval.splits)
    show ?thesis
    proof (cases "map_of c h")
      case None
      note absent = None
      show ?thesis
      proof (cases "kvs = []")
        case True
        then have "\<not> needs_entry c (h, r)" by (simp add: needs_entry_def Some v)
        with True Cons.IH[OF rest Cons.prems(2)] show ?thesis by (simp add: hr Some v)
      next
        case False
        then have "needs_entry c (h, r)" by (simp add: needs_entry_def Some v absent)
        with False show ?thesis
          by (simp add: hr Some v merge_host_facts_absent[OF absent])
      qed
    next
      case (Some w)
      then have present: "map_of c h \<noteq> None" by simp
      let ?m = "merge_host_facts h kvs c"
      from merge_host_facts_present[OF Cons.prems(2) present, of kvs]
      have m: "fst ?m = None" "map fst (snd ?m) = map fst c" "dict_entries (snd ?m)"
        by simp_all
      have "\<not> needs_entry c (h, r)" using Some by (simp add: needs_entry_def split: option.splits jval.splits)
      moreover have "find (needs_entry (snd ?m)) cs = find (needs_entry c) cs"
      proof -
        have "needs_entry (snd ?m) = needs_entry c"
          by (rule ext) (rule needs_entry_keys[OF m(2)])
        then show ?thesis by simp
      qed
      moreover note Cons.IH[OF rest m(3)]
      moreover obtain c' where c': "?m = (None, c')" using m(1) by (cases ?m) auto
      ultimately show ?thesis using m(2)
        by (simp add: hr \<open>map_of r ''ansible_facts'' = Some v\<close> v)
    qed
  qed
qed

lemma lift_restrict: "lift_restriction (restrict_to hs iv) = iv"
  by (simp add: lift_restriction_def restrict_to_def)

lemma mark_timed_out_eq:
  "mark_timed_out hs res pb =
     (res\<lparr>contacted := fold (\<lambda>h c. AList.update h timed_out c) hs (contacted res)\<rparr>,
      pb\<lparr>trace := trace pb @ map (\<lambda>h. On_failed h timed_out) hs\<rparr>)"
  by (induction hs arbitrary: res pb) (simp_all add: emit_def)

lemma async_poll_eq:
  "async_poll env secs interval pb =
     (case poller_wait env (trace pb) secs interval of
        (res, pending) \<Rightarrow>
          (res\<lparr>contacted := fold (\<lambda>h c. AList.update h timed_out c) pending (contacted res)\<rparr>,
           pb\<lparr>trace := trace pb @ Poller_wait secs interval
                                  # map (\<lambda>h. On_failed h timed_out) pending\<rparr>))"
  by (simp add: async_poll_def mark_timed_out_eq emit_def split: prod.splits)

lemma run_task_internal_eq:
  "run_task_internal env pl t pb =
     (task_results env pl t pb, pb\<lparr>trace := trace pb @ task_events env pl t pb\<rparr>)"
  by (simp add: run_task_internal_def task_results_def task_events_def launch_events_def
      task_call_def working_set_def async_poll_eq emit_def lift_restrict Let_def
      split: prod.splits)

lemma do_setup_step_eq:
  "do_setup_step env vf (pl, pb) =
     (setup_results env vf pl pb, setup_play env vf pl pb,
      pb\<lparr>SETUP_CACHE := (if vf = None
                          then load_facts (contacted (setup_results env vf pl pb)) (SETUP_CACHE pb)
                          else SETUP_CACHE pb),
         trace := trace pb @ setup_prelude env vf pl pb
                  @ [Runner_run (setup_call env vf pl pb),
                     Stats_compute (setup_results env vf pl pb) True]\<rparr>)"
  by (cases vf)
     (simp_all add: do_setup_step_def setup_results_def setup_play_def setup_call_def
       setup_prelude_def working_set_def emit_def lift_restrict Let_def)

lemma load_facts_lookup:
  "distinct (map fst cs) \<Longrightarrow>
   map_of (load_facts cs c) h =
     (case map_of cs h of
        None \<Rightarrow> map_of c h
      | Some r \<Rightarrow> (case map_of r ''ansible_facts'' of None \<Rightarrow> map_of c h | Some f \<Rightarrow> Some f))"
proof (induction cs arbitrary: c)
  case Nil
  then show ?case by simp
next
  case (Cons hr cs)
  obtain h0 r0 where hr: "hr = (h0, r0)" by (cases hr)
  from Cons.prems have d: "distinct (map fst cs)" and notin: "h0 \<notin> fst ` set cs"
    by (simp_all add: hr)
  from notin have none: "map_of cs h0 = None" by (simp add: map_of_eq_None_iff)
  show ?case
  proof (cases "h = h0")
    case True
    show ?thesis using Cons.IH[OF d] none
      by (simp add: hr True update_conv' split: option.splits)
  next
    case False
    show ?thesis using Cons.IH[OF d]
      by (simp add: hr False update_conv' split: option.splits)
  qed
qed

lemma same_play_refl: "same_play pl pl"
  by (simp add: same_play_def)

lemma same_play_trans: "same_play a b \<Longrightarrow> same_play b c \<Longrightarrow> same_play a c"
  unfolding same_play_def
  by (metis play.update_convs(6) play.surjective play.select_convs(6))

lemma notify_step_refl: "notify_step st st"
  by (simp add: notify_step_def same_play_refl)

lemma notify_step_trans: "notify_step a b \<Longrightarrow> notify_step b c \<Longrightarrow> notify_step a c"
  unfolding notify_step_def
  by (auto intro: same_play_trans)

lemma flag_handler_step:
  "flag_handler (handlers pl) hn h pb = (r, hds', pb') \<Longrightarrow>
   notify_step (pl, pb) (pl\<lparr>handlers := hds'\<rparr>, pb')"
  by (auto simp: flag_handler_eq notify_step_def same_play_def is_notify_def list_all_iff
      o_def split: if_splits intro!: map_idI[symmetric])

lemma flag_handler_error:
  "flag_handler hds hn h pb = (Some e, hds', pb') \<Longrightarrow>
   e = AnsibleError (''change handler ('' @ hn @ '') is not defined'')"
  by (auto simp: flag_handler_eq split: if_splits)

lemma notify_names_step:
  "notify_names env t h ns st = (r, st') \<Longrightarrow> notify_step st st'"
proof (induction ns arbitrary: st)
  case Nil
  then show ?case by (simp add: notify_step_refl)
next
  case (Cons n ns)
  obtain pl pb where st: "st = (pl, pb)" by (cases st)
  obtain r1 hds1 pb1 where f: "flag_handler (handlers pl) (template env n (module_vars t)) h pb = (r1, hds1, pb1)"
    by (metis prod_cases3)
  note s1 = flag_handler_step[OF f]
  show ?case
  proof (cases r1)
    case None
    with Cons.prems f have "notify_names env t h ns (pl\<lparr>handlers := hds1\<rparr>, pb1) = (r, st')"
      by (simp add: st)
    from Cons.IH[OF this] s1 show ?thesis unfolding st by (rule notify_step_trans[rotated])
  next
    case (Some e)
    with Cons.prems f have "st' = (pl\<lparr>handlers := hds1\<rparr>, pb1)" by (simp add: st)
    with s1 show ?thesis by (simp add: st)
  qed
qed

lemma notify_names_error:
  "notify_names env t h ns st = (Some e, st') \<Longrightarrow> \<exists>m. e = AnsibleError m"
proof (induction ns arbitrary: st)
  case Nil
  then show ?case by simp
next
  case (Cons n ns)
  obtain pl pb where st: "st = (pl, pb)" by (cases st)
  obtain r1 hds1 pb1 where f: "flag_handler (handlers pl) (template env n (module_vars t)) h pb = (r1, hds1, pb1)"
    by (metis prod_cases3)
  show ?case
  proof (cases r1)
    case None
    with Cons.prems f have "notify_names env t h ns (pl\<lparr>handlers := hds1\<rparr>, pb1) = (Some e, st')"
      by (simp add: st)
    from Cons.IH[OF this] show ?thesis .
  next
    case (Some e1)
    with Cons.prems f have "e = e1" by (simp add: st)
    with flag_handler_error f Some show ?thesis by blast
  qed
qed

lemma notify_hosts_step:
  "notify_hosts env t cs st = (r, st') \<Longrightarrow> notify_step st st'"
proof (induction cs arbitrary: st)
  case Nil
  then show ?case by (simp add: notify_step_refl)
next
  case (Cons hr cs)
  obtain h x where hr: "hr = (h, x)" by (cases hr)
  show ?case
  proof (cases "truthy (case map_of x ''changed'' of None \<Rightarrow> JBool False | Some v \<Rightarrow> v)")
    case False
    with Cons.prems have "notify_hosts env t cs st = (r, st')" by (simp add: hr)
    from Cons.IH[OF this] show ?thesis .
  next
    case True
    obtain r1 st1 where n: "notify_names env t h (notify t) st = (r1, st1)" by (cases "notify_names env t h (notify t) st")
    note s1 = notify_names_step[OF n]
    show ?thesis
    proof (cases r1)
      case None
      with Cons.prems True n have "notify_hosts env t cs st1 = (r, st')" by (simp add: hr)
      from s1 Cons.IH[OF this] show ?thesis by (rule notify_step_trans)
    next
      case (Some e)
      with Cons.prems True n have "st' = st1" by (simp add: hr)
      with s1 show ?thesis by simp
    qed
  qed
qed

lemma notify_hosts_error:
  "notify_hosts env t cs st = (Some e, st') \<Longrightarrow> \<exists>m. e = AnsibleError m"
proof (induction cs arbitrary: st)
  case Nil
  then show ?case by simp
next
  case (Cons hr cs)
  obtain h x where hr: "hr = (h, x)" by (cases hr)
  show ?case
  proof (cases "truthy (case map_of x ''changed'' of None \<Rightarrow> JBool False | Some v \<Rightarrow> v)")
    case False
    with Cons.prems have "notify_hosts env t cs st = (Some e, st')" by (simp add: hr)
    from Cons.IH[OF this] show ?thesis .
  next
    case True
    obtain r1 st1 where n: "notify_names env t h (notify t) st = (r1, st1)" by (cases "notify_names env t h (notify t) st")
    show ?thesis
    proof (cases r1)
      case None
      with Cons.prems True n have "notify_hosts env t cs st1 = (Some e, st')" by (simp add: hr)
      from Cons.IH[OF this] show ?thesis .
    next
      case (Some e1)
      with Cons.prems True n have "e = e1" by (simp add: hr)
      with notify_names_error n Some show ?thesis by blast
    qed
  qed
qed

lemma run_task_eq:
  "run_task env t b (pl, pb) =
     (let pb1 = emit (On_task_start (name t) b) pb;
          res = task_results env pl t pb1;
          pb2 = pb1\<lparr>trace := trace pb1 @ task_events env pl t pb1\<rparr>
      in case merge_facts (contacted res) (SETUP_CACHE pb) of
           (Some e, c) \<Rightarrow> (Some e, pl, pb2\<lparr>SETUP_CACHE := c\<rparr>)
         | (None, c) \<Rightarrow>
             if notify t = []
             then (None, pl, emit (Stats_compute res False) (pb2\<lparr>SETUP_CACHE := c\<rparr>))
             else notify_hosts env t (contacted res)
                    (pl, emit (Stats_compute res False) (pb2\<lparr>SETUP_CACHE := c\<rparr>)))"
  by (simp add: run_task_def run_task_internal_eq Let_def emit_def split: prod.splits option.splits)

lemma run_task_merge_error:
  assumes "fst (merge_facts (contacted (task_results env pl t (emit (On_task_start (name t) b) pb)))
          (SETUP_CACHE pb)) = Some e"
  shows "fst (run_task env t b (pl, pb)) = Some e"
proof -
  let ?res = "task_results env pl t (emit (On_task_start (name t) b) pb)"
  obtain c where "merge_facts (contacted ?res) (SETUP_CACHE pb) = (Some e, c)"
    using assms by (cases "merge_facts (contacted ?res) (SETUP_CACHE pb)") simp
  then show ?thesis by (simp add: run_task_eq Let_def)
qed

lemma run_task_merge_ok:
  assumes "fst (merge_facts (contacted (task_results env pl t (emit (On_task_start (name t) b) pb)))
          (SETUP_CACHE pb)) = None"
  shows "fst (run_task env t b (pl, pb)) \<noteq> Some (KeyError h)"
proof -
  let ?res = "task_results env pl t (emit (On_task_start (name t) b) pb)"
  obtain c where m: "merge_facts (contacted ?res) (SETUP_CACHE pb) = (None, c)"
    using assms by (cases "merge_facts (contacted ?res) (SETUP_CACHE pb)") simp
  show ?thesis
  proof (cases "notify t = []")
    case True
    with m show ?thesis by (simp add: run_task_eq Let_def)
  next
    case False
    let ?st = "(pl, emit (Stats_compute ?res False)
                 (emit (On_task_start (name t) b) pb
                   \<lparr>trace := trace (emit (On_task_start (name t) b) pb)
                              @ task_events env pl t (emit (On_task_start (name t) b) pb),
                     SETUP_CACHE := c\<rparr>))"
    obtain r' st' where n: "notify_hosts env t (contacted ?res) ?st = (r', st')"
      by (cases "notify_hosts env t (contacted ?res) ?st")
    have "r' \<noteq> Some (KeyError h)"
    proof
      assume "r' = Some (KeyError h)"
      with n notify_hosts_error show False by blast
    qed
    with False m n show ?thesis by (simp add: run_task_eq Let_def)
  qed
qed

lemma run_task_cache:
  "SETUP_CACHE (snd (snd (run_task env t b (pl, pb))))
     = snd (merge_facts (contacted (task_results env pl t (emit (On_task_start (name t) b) pb)))
              (SETUP_CACHE pb))"
proof -
  let ?res = "task_results env pl t (emit (On_task_start (name t) b) pb)"
  obtain r c where m: "merge_facts (contacted ?res) (SETUP_CACHE pb) = (r, c)"
    by (cases "merge_facts (contacted ?res) (SETUP_CACHE pb)")
  show ?thesis
  proof (cases "r = None \<and> notify t \<noteq> []")
    case False
    then show ?thesis using m
      by (auto simp: run_task_eq Let_def emit_def split: option.splits)
  next
    case True
    let ?st = "(pl, emit (Stats_compute ?res False)
                 (emit (On_task_start (name t) b) pb
                   \<lparr>trace := trace (emit (On_task_start (name t) b) pb)
                              @ task_events env pl t (emit (On_task_start (name t) b) pb),
                     SETUP_CACHE := c\<rparr>))"
    obtain r' st' where n: "notify_hosts env t (contacted ?res) ?st = (r', st')"
      by (cases "notify_hosts env t (contacted ?res) ?st")
    from notify_hosts_step[OF n] have "SETUP_CACHE (snd st') = c"
      by (simp add: notify_step_def emit_def)
    with True m n show ?thesis
      by (simp add: run_task_eq Let_def)
  qed
qed

text \<open>
  Claim C10, as amended. In the fact merge of \<open>_run_task\<close>, with the facts and the
  cache entries being dicts: when some contacted host returns a non-empty
  \<open>ansible_facts\<close> map and has no entry in the setup cache, the merge indexes the
  missing entry and the task raises KeyError for the first such host; otherwise the task
  raises no KeyError. In either case no entry is initialised: the cache has the same
  hosts after the task as before. A host whose \<open>ansible_facts\<close> map is empty is passed
  over, entry or not.
\<close>

theorem fact_merge_missing_entry:
  assumes "res = fst (run_task_internal env pl t (emit (On_task_start (name t) b) pb))"
    and "dict_facts (contacted res)"
    and "dict_entries (SETUP_CACHE pb)"
  shows "(case find (needs_entry (SETUP_CACHE pb)) (contacted res) of
            Some hr \<Rightarrow> fst (run_task env t b (pl, pb)) = Some (KeyError (fst hr))
          | None \<Rightarrow> (\<forall>h. fst (run_task env t b (pl, pb)) \<noteq> Some (KeyError h)))
         \<and> map fst (SETUP_CACHE (snd (snd (run_task env t b (pl, pb)))))
             = map fst (SETUP_CACHE pb)"
proof -
  have res: "res = task_results env pl t (emit (On_task_start (name t) b) pb)"
    using assms(1) by (simp add: run_task_internal_eq)
  note m = merge_facts_find[OF assms(2,3)]
  show ?thesis
  proof (cases "find (needs_entry (SETUP_CACHE pb)) (contacted res)")
    case None
    with m have "fst (merge_facts (contacted res) (SETUP_CACHE pb)) = None" by simp
    then have "\<forall>h. fst (run_task env t b (pl, pb)) \<noteq> Some (KeyError h)"
      unfolding res by (blast dest: run_task_merge_ok)
    with None m show ?thesis by (simp add: run_task_cache res)
  next
    case (Some hr)
    with m have "fst (merge_facts (contacted res) (SETUP_CACHE pb)) = Some (KeyError (fst hr))"
      by simp
    then have "fst (run_task env t b (pl, pb)) = Some (KeyError (fst hr))"
      unfolding res by (rule run_task_merge_error)
    with Some m show ?thesis by (simp add: run_task_cache res)
  qed
qed

theorem fact_merge_missing_entry_witness:
  "dict_facts (contacted (fst (run_task_internal scripted (mk_play [] []) t_facts
                                 (emit (On_task_start (name t_facts) False) fresh))))
   \<and> dict_entries (SETUP_CACHE fresh)
   \<and> fst (run_task scripted t_facts False (mk_play [] [], fresh)) = Some (KeyError ''h1'')
   \<and> map fst (SETUP_CACHE (snd (snd (run_task scripted t_facts False (mk_play [] [], fresh))))) = []"
proof -
  let ?res = "fst (run_task_internal scripted (mk_play [] []) t_facts
                     (emit (On_task_start (name t_facts) False) fresh))"
  have h1: "dict_facts (contacted ?res)" by code_simp
  have h2: "dict_entries (SETUP_CACHE fresh)" by code_simp
  have f: "find (needs_entry (SETUP_CACHE fresh)) (contacted ?res)
             = Some (''h1'', [(''ansible_facts'', JDict [(''a'', JInt 1)])])"
    by code_simp
  have c: "SETUP_CACHE fresh = []" by code_simp
  from fact_merge_missing_entry[OF refl h1 h2] h1 h2 show ?thesis
    unfolding f by (simp add: c)
qed

text \<open>
  The claim as first stated fails for an empty facts map: host \<open>h1\<close> returns
  \<open>ansible_facts = {}\<close>, has no cache entry, and the task raises nothing.
\<close>

theorem fact_merge_empty_facts_counterexample:
  "contacted (fst (run_task_internal scripted (mk_play [] []) t_nofacts
                     (emit (On_task_start (name t_nofacts) False) fresh)))
     = [(''h1'', [(''ansible_facts'', JDict [])]), (''h2'', []), (''h3'', [])]
   \<and> map_of (SETUP_CACHE fresh) ''h1'' = None
   \<and> fst (run_task scripted t_nofacts False (mk_play [] [], fresh)) = None"
  by code_simp

text \<open>
  Claim C6. \<open>_flag_handler\<close> scans the handlers in list order. When some handler
  carries the templated name, every handler of that name gets the host appended at the
  end of its \<open>notified_by\<close>, the list keeps its order and its other members, and one
  \<open>on_notify(host, name)\<close> is emitted per matching handler, in list order. When no
  handler carries the name, the call raises the error
  \<open>change handler (X) is not defined\<close>: no handler is changed, nothing is emitted and
  nothing is recorded for the host.
\<close>

theorem flag_handler_scan:
  "flag_handler hds hn h pb =
     (if \<exists>x\<in>set hds. name x = hn
      then (None,
            map (\<lambda>x. if name x = hn then x\<lparr>notified_by := notified_by x @ [h]\<rparr> else x) hds,
            pb\<lparr>trace := trace pb @ map (\<lambda>x. On_notify h (name x)) (filter (\<lambda>x. name x = hn) hds)\<rparr>)
      else (Some (AnsibleError (''change handler ('' @ hn @ '') is not defined'')), hds, pb))"
  by (rule flag_handler_eq)

theorem flag_handler_scan_witness:
  "flag_handler [mk_task ''restart'' [] [], mk_task ''reload'' [] [], mk_task ''restart'' [] []]
       ''restart'' ''h1'' fresh
     = (None,
        [(mk_task ''restart'' [] [])\<lparr>notified_by := [''h1'']\<rparr>, mk_task ''reload'' [] [],
         (mk_task ''restart'' [] [])\<lparr>notified_by := [''h1'']\<rparr>],
        fresh\<lparr>trace := [On_notify ''h1'' ''restart'', On_notify ''h1'' ''restart'']\<rparr>)
   \<and> flag_handler [mk_task ''restart'' [] [], mk_task ''reload'' [] []] ''restart-xyz'' ''h1'' fresh
     = (Some (AnsibleError ''change handler (restart-xyz) is not defined''),
        [mk_task ''restart'' [] [], mk_task ''reload'' [] []], fresh)
   \<and> fst (run scripted [p_broken] fresh)
     = Inl (AnsibleError ''change handler (restart-xyz) is not defined'')"
proof -
  have 1: "flag_handler [mk_task ''restart'' [] [], mk_task ''reload'' [] [], mk_task ''restart'' [] []]
       ''restart'' ''h1'' fresh
     = (None,
        [(mk_task ''restart'' [] [])\<lparr>notified_by := [''h1'']\<rparr>, mk_task ''reload'' [] [],
         (mk_task ''restart'' [] [])\<lparr>notified_by := [''h1'']\<rparr>],
        fresh\<lparr>trace := [On_notify ''h1'' ''restart'', On_notify ''h1'' ''restart'']\<rparr>)"
    using flag_handler_scan[of "[mk_task ''restart'' [] [], mk_task ''reload'' [] [], mk_task ''restart'' [] []]"
          "''restart''" "''h1''" fresh]
    by (simp add: mk_task_def fresh_def)
  have 2: "flag_handler [mk_task ''restart'' [] [], mk_task ''reload'' [] []] ''restart-xyz'' ''h1'' fresh
     = (Some (AnsibleError ''change handler (restart-xyz) is not defined''),
        [mk_task ''restart'' [] [], mk_task ''reload'' [] []], fresh)"
    using flag_handler_scan[of "[mk_task ''restart'' [] [], mk_task ''reload'' [] []]"
          "''restart-xyz''" "''h1''" fresh]
    by (simp add: mk_task_def fresh_def)
  have 3: "fst (run scripted [p_broken] fresh)
     = Inl (AnsibleError ''change handler (restart-xyz) is not defined'')"
    by code_simp
  from 1 2 3 show ?thesis by blast
qed

subsection \<open>Asynchronous tasks and the setup step\<close>

lemma fold_update_lookup:
  "map_of (fold (\<lambda>h c. AList.update h v c) hs c0) h = (if h \<in> set hs then Some v else map_of c0 h)"
  by (induction hs arbitrary: c0) (auto simp: update_conv')

lemma count_failed_append: "count_failed h (xs @ ys) = count_failed h xs + count_failed h ys"
  by (simp add: count_failed_def)

lemma count_failed_marks: "count_failed h (map (\<lambda>h. On_failed h r) hs) = count_list hs h"
  by (induction hs) (simp_all add: count_failed_def)

lemma count_list_distinct: "distinct hs \<Longrightarrow> h \<in> set hs \<Longrightarrow> count_list hs h = 1"
  by (induction hs) (auto simp: count_list_0_iff)

lemma new_events_append: "trace pb' = trace pb @ evs \<Longrightarrow> new_events pb pb' = evs"
  by (simp add: new_events_def)

lemma polled_task:
  assumes "async_seconds t \<noteq> 0" and "0 < async_poll_interval t"
    and "poller_wait env (trace pb @ launch_events env pl t pb)
           (async_seconds t) (async_poll_interval t) = (res0, pending)"
  shows "run_task_internal env pl t pb =
           (res0\<lparr>contacted := fold (\<lambda>h c. AList.update h timed_out c) pending (contacted res0)\<rparr>,
            pb\<lparr>trace := trace pb @ launch_events env pl t pb
                       @ Poller_wait (async_seconds t) (async_poll_interval t)
                       # map (\<lambda>h. On_failed h timed_out) pending\<rparr>)"
  using assms by (simp add: run_task_internal_eq task_results_def task_events_def)

text \<open>
  Claim C5. For a task that is launched asynchronously and polled, every host still in
  \<open>poller.hosts_to_poll\<close> when the wait returns has the result
  \<open>{failed: 1, rc: None, msg: 'timed out'}\<close> under \<open>contacted\<close> in the results the
  dispatch returns, and among the calls of the dispatch there is exactly one
  \<open>on_failed\<close> for that host, carrying this result. \<open>hosts_to_poll\<close> lists each
  host once.
\<close>

theorem async_timeout_synthesized:
  assumes "async_seconds t \<noteq> 0" and "0 < async_poll_interval t"
    and "poller_wait env (trace pb @ launch_events env pl t pb)
           (async_seconds t) (async_poll_interval t) = (res0, hosts_to_poll)"
    and "h \<in> set hosts_to_poll" and "distinct hosts_to_poll"
    and "run_task_internal env pl t pb = (res, pb')"
  shows "map_of (contacted res) h = Some timed_out
         \<and> On_failed h timed_out \<in> set (new_events pb pb')
         \<and> count_failed h (new_events pb pb') = 1"
proof -
  note eq = polled_task[OF assms(1-3)]
  from eq assms(6) have res: "contacted res = fold (\<lambda>h c. AList.update h timed_out c) hosts_to_poll (contacted res0)"
    by simp
  from eq assms(6) have "trace pb' = trace pb @ launch_events env pl t pb
                       @ Poller_wait (async_seconds t) (async_poll_interval t)
                       # map (\<lambda>h. On_failed h timed_out) hosts_to_poll"
    by auto
  then have new: "new_events pb pb' = launch_events env pl t pb
                       @ Poller_wait (async_seconds t) (async_poll_interval t)
                       # map (\<lambda>h. On_failed h timed_out) hosts_to_poll"
    by (rule new_events_append)
  have 1: "map_of (contacted res) h = Some timed_out"
    using assms(4) by (simp add: res fold_update_lookup)
  have 2: "On_failed h timed_out \<in> set (new_events pb pb')"
    using assms(4) by (simp add: new)
  have "count_failed h (launch_events env pl t pb) = 0"
    by (simp add: count_failed_def launch_events_def)
  moreover have "count_failed h (Poller_wait (async_seconds t) (async_poll_interval t)
                   # map (\<lambda>h. On_failed h timed_out) hosts_to_poll)
                 = count_failed h (map (\<lambda>h. On_failed h timed_out) hosts_to_poll)"
    by (simp add: count_failed_def)
  ultimately have "count_failed h (new_events pb pb') = count_list hosts_to_poll h"
    unfolding new count_failed_append by (simp add: count_failed_marks)
  with count_list_distinct[OF assms(5,4)] have 3: "count_failed h (new_events pb pb') = 1"
    by simp
  from 1 2 3 show ?thesis by simp
qed

theorem async_timeout_synthesized_witness:
  "async_seconds t_poll \<noteq> 0 \<and> 0 < async_poll_interval t_poll
   \<and> snd (poller_wait scripted (trace fresh @ launch_events scripted (mk_play [] []) t_poll fresh)
            (async_seconds t_poll) (async_poll_interval t_poll)) = [''h1'']
   \<and> map_of (contacted (fst (run_task_internal scripted (mk_play [] []) t_poll fresh))) ''h1''
       = Some [(''failed'', JInt 1), (''rc'', JNone), (''msg'', JStr ''timed out'')]
   \<and> count_failed ''h1'' (new_events fresh (snd (run_task_internal scripted (mk_play [] []) t_poll fresh))) = 1"
proof -
  let ?w = "poller_wait scripted (trace fresh @ launch_events scripted (mk_play [] []) t_poll fresh)
              (async_seconds t_poll) (async_poll_interval t_poll)"
  have a: "async_seconds t_poll \<noteq> 0" by code_simp
  have b: "0 < async_poll_interval t_poll" by code_simp
  have w: "snd ?w = [''h1'']" by code_simp
  then have w': "?w = (fst ?w, [''h1''])" by (metis prod.collapse)
  have m: "''h1'' \<in> set [''h1'']" and d: "distinct [''h1'']" by simp_all
  from async_timeout_synthesized[OF a b w' m d prod.collapse[symmetric]] a b w
  show ?thesis by (simp add: timed_out_def)
qed

lemma folds_append: "folds (xs @ ys) = folds xs @ folds ys"
  by (induction xs rule: folds.induct) simp_all

lemma folds_notify: "list_all is_notify evs \<Longrightarrow> folds evs = []"
  by (induction evs rule: folds.induct) (simp_all add: is_notify_def)

lemma poll_notify: "list_all is_notify evs \<Longrightarrow> \<not> list_ex is_poll evs"
  by (induction evs) (auto simp: is_notify_def is_poll_def split: event.splits)

lemma run_task_step:
  assumes "run_task env t b (pl, pb) = (r, pl', pb')"
  defines "pb1 \<equiv> emit (On_task_start (name t) b) pb"
  defines "res \<equiv> task_results env pl t pb1"
  shows "inventory pb' = inventory pb"
    and "same_play pl pl'"
    and "\<exists>evs. list_all is_notify evs
           \<and> trace pb' = trace pb @ On_task_start (name t) b # task_events env pl t pb1
                          @ (if fst (merge_facts (contacted res) (SETUP_CACHE pb)) = None
                             then Stats_compute res False # evs else [])
           \<and> (r = None \<longrightarrow> fst (merge_facts (contacted res) (SETUP_CACHE pb)) = None)"
proof -
  obtain e c where m: "merge_facts (contacted res) (SETUP_CACHE pb) = (e, c)"
    by (cases "merge_facts (contacted res) (SETUP_CACHE pb)")
  let ?pb3 = "emit (Stats_compute res False)
                (pb1\<lparr>trace := trace pb1 @ task_events env pl t pb1, SETUP_CACHE := c\<rparr>)"
  have "inventory pb' = inventory pb \<and> same_play pl pl'
        \<and> (\<exists>evs. list_all is_notify evs
           \<and> trace pb' = trace pb @ On_task_start (name t) b # task_events env pl t pb1
                          @ (if e = None then Stats_compute res False # evs else [])
           \<and> (r = None \<longrightarrow> e = None))"
  proof (cases e)
    case (Some x)
    with assms(1) m have "pl' = pl" "r = Some x"
      "pb' = pb1\<lparr>trace := trace pb1 @ task_events env pl t pb1, SETUP_CACHE := c\<rparr>"
      by (auto simp: run_task_eq Let_def pb1_def[symmetric] res_def[symmetric])
    moreover have "list_all is_notify []" by simp
    ultimately show ?thesis using Some
      by (auto simp: same_play_refl emit_def pb1_def intro: exI[of _ "[]"])
  next
    case None
    show ?thesis
    proof (cases "notify t = []")
      case True
      with assms(1) m None have "pl' = pl" "pb' = ?pb3" "r = None"
        by (auto simp: run_task_eq Let_def pb1_def[symmetric] res_def[symmetric])
      then show ?thesis using None
        by (simp add: same_play_refl emit_def pb1_def)
    next
      case False
      with assms(1) m None have n: "notify_hosts env t (contacted res) (pl, ?pb3) = (r, pl', pb')"
        by (simp add: run_task_eq Let_def pb1_def[symmetric] res_def[symmetric])
      from notify_hosts_step[OF n] obtain evs where
        "same_play pl pl'" "inventory pb' = inventory ?pb3" "trace pb' = trace ?pb3 @ evs"
        "list_all is_notify evs"
        by (auto simp: notify_step_def)
      then show ?thesis using None
        by (auto simp: emit_def pb1_def)
    qed
  qed
  with m show "inventory pb' = inventory pb" and "same_play pl pl'"
    and "\<exists>evs. list_all is_notify evs
           \<and> trace pb' = trace pb @ On_task_start (name t) b # task_events env pl t pb1
                          @ (if fst (merge_facts (contacted res) (SETUP_CACHE pb)) = None
                             then Stats_compute res False # evs else [])
           \<and> (r = None \<longrightarrow> fst (merge_facts (contacted res) (SETUP_CACHE pb)) = None)"
    by simp_all
qed

text \<open>
  Claim C2, as amended. A task with \<open>async_seconds > 0\<close> and
  \<open>async_poll_interval = 0\<close> makes no Poller call, and every fold into the Stats
  ledger during the task is a fold of the results of the launch. There are two such
  folds, the one \<open>_run_task_internal\<close> makes right after the launch and the one
  \<open>_run_task\<close> makes after the fact merge; when the fact merge raises, the second is
  not reached.
\<close>

theorem fire_and_forget_folds:
  assumes "0 < async_seconds t" and "async_poll_interval t = 0"
    and "run_task env t b (pl, pb) = (r, pl', pb')"
    and "r0 = fst (run_task_internal env pl t (emit (On_task_start (name t) b) pb))"
  shows "r0 = runner_run_async env (trace pb @ [On_task_start (name t) b])
                (task_call env pl t (emit (On_task_start (name t) b) pb)) (async_seconds t)
         \<and> \<not> list_ex is_poll (new_events pb pb')
         \<and> folds (new_events pb pb')
             = (if fst (merge_facts (contacted r0) (SETUP_CACHE pb)) = None
                then [(r0, False), (r0, False)] else [(r0, False)])"
proof -
  let ?pb1 = "emit (On_task_start (name t) b) pb"
  have r0: "r0 = task_results env pl t ?pb1"
    using assms(4) by (simp add: run_task_internal_eq)
  have init: "r0 = runner_run_async env (trace pb @ [On_task_start (name t) b])
                (task_call env pl t ?pb1) (async_seconds t)"
    using assms(1,2) by (simp add: r0 task_results_def emit_def)
  have ev: "task_events env pl t ?pb1
              = [Runner_run_async (task_call env pl t ?pb1) (async_seconds t), Stats_compute r0 False]"
    using assms(1,2) init by (simp add: task_events_def launch_events_def emit_def)
  from run_task_step(3)[OF assms(3)] obtain evs where
    evs: "list_all is_notify evs"
    and tr: "trace pb' = trace pb @ On_task_start (name t) b # task_events env pl t ?pb1
               @ (if fst (merge_facts (contacted r0) (SETUP_CACHE pb)) = None
                  then Stats_compute r0 False # evs else [])"
    unfolding r0 by blast
  from tr have new: "new_events pb pb' = On_task_start (name t) b # task_events env pl t ?pb1
               @ (if fst (merge_facts (contacted r0) (SETUP_CACHE pb)) = None
                  then Stats_compute r0 False # evs else [])"
    by (rule new_events_append)
  have "\<not> list_ex is_poll (new_events pb pb')"
    using poll_notify[OF evs] by (simp add: new ev is_poll_def)
  moreover have "folds (new_events pb pb')
             = (if fst (merge_facts (contacted r0) (SETUP_CACHE pb)) = None
                then [(r0, False), (r0, False)] else [(r0, False)])"
    using folds_notify[OF evs] by (simp add: new ev)
  ultimately show ?thesis using init by simp
qed

theorem fire_and_forget_folds_witness:
  "0 < async_seconds t_forget \<and> async_poll_interval t_forget = 0
   \<and> \<not> list_ex is_poll (new_events fresh (snd (snd (run_task scripted t_forget False (mk_play [] [], fresh)))))
   \<and> folds (new_events fresh (snd (snd (run_task scripted t_forget False (mk_play [] [], fresh)))))
       = [(\<lparr>contacted = [(''h1'', [(''started'', JInt 1)]), (''h2'', [(''started'', JInt 1)]),
                          (''h3'', [(''started'', JInt 1)])], dark = []\<rparr>, False),
          (\<lparr>contacted = [(''h1'', [(''started'', JInt 1)]), (''h2'', [(''started'', JInt 1)]),
                          (''h3'', [(''started'', JInt 1)])], dark = []\<rparr>, False)]"
proof -
  let ?r0 = "fst (run_task_internal scripted (mk_play [] []) t_forget
                    (emit (On_task_start (name t_forget) False) fresh))"
  have a: "0 < async_seconds t_forget" by code_simp
  have b: "async_poll_interval t_forget = 0" by code_simp
  have r: "?r0 = \<lparr>contacted = [(''h1'', [(''started'', JInt 1)]), (''h2'', [(''started'', JInt 1)]),
                          (''h3'', [(''started'', JInt 1)])], dark = []\<rparr>"
    by code_simp
  have m: "fst (merge_facts (contacted ?r0) (SETUP_CACHE fresh)) = None" by code_simp
  have p: "run_task scripted t_forget False (mk_play [] [], fresh)
           = (fst (run_task scripted t_forget False (mk_play [] [], fresh)),
              fst (snd (run_task scripted t_forget False (mk_play [] [], fresh))),
              snd (snd (run_task scripted t_forget False (mk_play [] [], fresh))))"
    by simp
  from fire_and_forget_folds[OF a b p refl] a b show ?thesis
    unfolding m unfolding r by simp
qed

text \<open>
  The claim as first stated has the results folded exactly once. A fire-and-forget task
  over three hosts leaves two folds in the ledger, and a ledger that counts per fold
  reports two ok results for host \<open>h1\<close> after this one task.
\<close>

theorem fire_and_forget_two_folds_counterexample:
  "0 < async_seconds t_forget \<and> async_poll_interval t_forget = 0
   \<and> length (folds (new_events fresh
                (snd (snd (run_task scripted t_forget False (mk_play [] [], fresh)))))) = 2
   \<and> ledger_summarize (trace (snd (snd (run_task scripted t_forget False (mk_play [] [], fresh))))) ''h1''
       = JDict [(''ok'', JInt 2), (''changed'', JInt 0), (''failures'', JInt 0), (''unreachable'', JInt 0)]"
  by code_simp

text \<open>
  Claim C4. After the primary setup step (\<open>vars_files = None\<close>) the cache entry of
  each contacted host whose result has \<open>ansible_facts\<close> is that value, whatever the
  entry was before, and every other entry is as it was. After the secondary setup step
  the cache is the cache it was. The contacted hosts are the keys of a dict, hence
  distinct.
\<close>

theorem setup_cache_replacement:
  assumes "do_setup_step env vf (pl, pb) = (res, pl', pb')"
    and "distinct (map fst (contacted res))"
  shows "(vf = None \<longrightarrow>
            (\<forall>h. map_of (SETUP_CACHE pb') h =
                   (case map_of (contacted res) h of
                      None \<Rightarrow> map_of (SETUP_CACHE pb) h
                    | Some r \<Rightarrow> (case map_of r ''ansible_facts'' of
                                  None \<Rightarrow> map_of (SETUP_CACHE pb) h
                                | Some f \<Rightarrow> Some f))))
         \<and> (vf \<noteq> None \<longrightarrow> SETUP_CACHE pb' = SETUP_CACHE pb)"
proof -
  from assms(1) have res: "res = setup_results env vf pl pb"
    and c: "SETUP_CACHE pb' = (if vf = None then load_facts (contacted res) (SETUP_CACHE pb)
                               else SETUP_CACHE pb)"
    by (auto simp: do_setup_step_eq)
  show ?thesis using load_facts_lookup[OF assms(2)] by (simp add: c)
qed

theorem setup_cache_replacement_witness:
  "distinct (map fst (contacted (fst (do_setup_step scripted None
                                        (p_site, fresh\<lparr>SETUP_CACHE := [(''h1'', JDict [(''stale'', JInt 7)])]\<rparr>)))))
   \<and> map_of (SETUP_CACHE (snd (snd (do_setup_step scripted None
                (p_site, fresh\<lparr>SETUP_CACHE := [(''h1'', JDict [(''stale'', JInt 7)])]\<rparr>))))) ''h1''
       = Some (JDict [(''os'', JStr ''linux'')])
   \<and> SETUP_CACHE (snd (snd (do_setup_step scripted (Some [''vars.yml''])
                (p_site, fresh\<lparr>SETUP_CACHE := [(''h1'', JDict [(''stale'', JInt 7)])]\<rparr>))))
       = [(''h1'', JDict [(''stale'', JInt 7)])]"
proof -
  let ?pb = "fresh\<lparr>SETUP_CACHE := [(''h1'', JDict [(''stale'', JInt 7)])]\<rparr>"
  let ?a = "do_setup_step scripted None (p_site, ?pb)"
  let ?b = "do_setup_step scripted (Some [''vars.yml'']) (p_site, ?pb)"
  have ea: "?a = (fst ?a, fst (snd ?a), snd (snd ?a))" by simp
  have eb: "?b = (fst ?b, fst (snd ?b), snd (snd ?b))" by simp
  have da: "distinct (map fst (contacted (fst ?a)))" by code_simp
  have db: "distinct (map fst (contacted (fst ?b)))" by code_simp
  have la: "map_of (contacted (fst ?a)) ''h1'' = Some [(''ansible_facts'', JDict [(''os'', JStr ''linux'')])]"
    by code_simp
  have c: "SETUP_CACHE ?pb = [(''h1'', JDict [(''stale'', JInt 7)])]" by simp
  from setup_cache_replacement[OF ea da] la
  have 1: "map_of (SETUP_CACHE (snd (snd ?a))) ''h1'' = Some (JDict [(''os'', JStr ''linux'')])"
    by simp
  from setup_cache_replacement[OF eb db] c
  have 2: "SETUP_CACHE (snd (snd ?b)) = [(''h1'', JDict [(''stale'', JInt 7)])]"
    by simp
  from da 1 2 show ?thesis by simp
qed

subsection \<open>The restriction stack\<close>

lemma do_setup_step_inventory:
  "do_setup_step env vf (pl, pb) = (res, pl', pb') \<Longrightarrow> inventory pb' = inventory pb"
  by (auto simp: do_setup_step_eq)

lemma run_tasks_inventory:
  "run_tasks env ts st = (r, st') \<Longrightarrow> inventory (snd st') = inventory (snd st)"
proof (induction ts arbitrary: st)
  case Nil
  then show ?case by simp
next
  case (Cons t ts)
  obtain pl pb where st: "st = (pl, pb)" by (cases st)
  obtain r1 pl1 pb1 where t: "run_task env t False (pl, pb) = (r1, pl1, pb1)"
    by (metis prod_cases3)
  note i = run_task_step(1)[OF t]
  show ?case
  proof (cases r1)
    case None
    with Cons.prems t have "run_tasks env ts (pl1, pb1) = (r, st')" by (simp add: st)
    from Cons.IH[OF this] i show ?thesis by (simp add: st)
  next
    case (Some e)
    with Cons.prems t have "st' = (pl1, pb1)" by (simp add: st)
    with i show ?thesis by (simp add: st)
  qed
qed

lemma run_handlers_inventory:
  "run_handlers env js st = (r, st') \<Longrightarrow>
   (r = None \<longrightarrow> inventory (snd st') = inventory (snd st))
   \<and> (r \<noteq> None \<longrightarrow> (\<exists>hs. hs \<noteq> [] \<and> inventory (snd st') = restrict_to hs (inventory (snd st))))"
proof (induction js arbitrary: st)
  case Nil
  then show ?case by simp
next
  case (Cons i js)
  obtain pl pb where st: "st = (pl, pb)" by (cases st)
  let ?h = "handlers pl ! i"
  show ?case
  proof (cases "notified_by ?h = []")
    case True
    with Cons.prems have "run_handlers env js (pl, pb) = (r, st')" by (simp add: st)
    from Cons.IH[OF this] show ?thesis by (simp add: st)
  next
    case False
    let ?pb0 = "pb\<lparr>inventory := restrict_to (notified_by ?h) (inventory pb)\<rparr>"
    obtain r1 pl1 pb1 where t: "run_task env ?h True (pl, ?pb0) = (r1, pl1, pb1)"
      by (metis prod_cases3)
    from run_task_step(1)[OF t]
    have i1: "inventory pb1 = restrict_to (notified_by ?h) (inventory pb)" by simp
    show ?thesis
    proof (cases r1)
      case None
      let ?pb2 = "pb1\<lparr>inventory := lift_restriction (inventory pb1)\<rparr>"
      from None Cons.prems t False have "run_handlers env js (pl1, ?pb2) = (r, st')"
        by (simp add: st Let_def)
      from Cons.IH[OF this] show ?thesis by (simp add: st i1 lift_restrict)
    next
      case (Some e)
      with Cons.prems t False have "r = Some e" "st' = (pl1, pb1)"
        by (simp_all add: st Let_def)
      with i1 False show ?thesis by (auto simp: st)
    qed
  qed
qed

lemma after_setup_inventory:
  "inventory (snd (after_setup env (pl, pb))) = inventory pb"
proof -
  let ?pb0 = "emit (On_play_start (play_name pl)) pb"
  obtain res1 pl1 pb1 where s1: "do_setup_step env None (pl, ?pb0) = (res1, pl1, pb1)"
    by (metis prod_cases3)
  have i1: "inventory pb1 = inventory pb"
    using do_setup_step_inventory[OF s1] by (simp add: emit_def)
  show ?thesis
  proof (cases "vars_files pl1")
    case None
    with s1 i1 show ?thesis by (simp add: after_setup_def)
  next
    case (Some fs)
    show ?thesis
    proof (cases "length fs > 0")
      case True
      obtain res2 pl2 pb2 where s2: "do_setup_step env (Some fs) (pl1, pb1) = (res2, pl2, pb2)"
        by (metis prod_cases3)
      from do_setup_step_inventory[OF s2] s1 s2 i1 Some True show ?thesis
        by (simp add: after_setup_def)
    next
      case False
      with s1 i1 Some show ?thesis by (simp add: after_setup_def)
    qed
  qed
qed

lemma run_play_inventory:
  assumes "run_play env (pl, pb) = (r, pl', pb')"
  shows "(r = None \<longrightarrow> inventory pb' = inventory pb)
         \<and> (r \<noteq> None \<longrightarrow> inventory pb' = inventory pb
                        \<or> (\<exists>hs. hs \<noteq> [] \<and> inventory pb' = restrict_to hs (inventory pb)))"
proof -
  let ?st2 = "after_setup env (pl, pb)"
  obtain r3 pl3 pb3 where t: "run_tasks env (tasks (fst ?st2)) ?st2 = (r3, pl3, pb3)"
    by (metis prod_cases3)
  from run_tasks_inventory[OF t] have i3: "inventory pb3 = inventory pb"
    by (simp add: after_setup_inventory)
  show ?thesis
  proof (cases r3)
    case (Some e)
    with assms t have "r = Some e" "pb' = pb3"
      by (simp_all add: run_play_eq)
    with i3 show ?thesis by simp
  next
    case None
    with assms t
    have "run_handlers env [0 ..< length (handlers pl3)] (pl3, pb3) = (r, pl', pb')"
      by (simp add: run_play_eq)
    from run_handlers_inventory[OF this] show ?thesis by (auto simp: i3)
  qed
qed

lemma run_plays_inventory:
  "run_plays env ps pb = (None, pb') \<Longrightarrow> inventory pb' = inventory pb"
proof (induction ps arbitrary: pb)
  case Nil
  then show ?case by simp
next
  case (Cons p ps)
  obtain r1 pl1 pb1 where p: "run_play env (p, pb\<lparr>SETUP_CACHE := []\<rparr>) = (r1, pl1, pb1)"
    by (metis prod_cases3)
  show ?case
  proof (cases r1)
    case None
    with Cons.prems p have "run_plays env ps pb1 = (None, pb')" by simp
    from Cons.IH[OF this] run_play_inventory[OF p] None show ?thesis by simp
  next
    case (Some e)
    with Cons.prems p show ?thesis by simp
  qed
qed

text \<open>
  Claim C9, as amended. On every path that returns normally each restriction pushed by
  the orchestrator has been lifted again: after \<open>_run_play\<close> returns, and after
  \<open>run\<close> returns its summary, the restriction stack is the one it was at the start
  (empty for a run started without restrictions). The source has no exception handler
  around a push and its lift. When \<open>_run_play\<close> raises, the stack is either as it
  was or still holds one restriction more, the \<open>notified_by\<close> of the handler whose
  run raised.
\<close>

theorem restriction_lifted_on_return:
  "(run_play env (pl, pb) = (r, pl', pb') \<longrightarrow>
       (r = None \<longrightarrow> restrictions (inventory pb') = restrictions (inventory pb))
     \<and> (r \<noteq> None \<longrightarrow> restrictions (inventory pb') = restrictions (inventory pb)
                     \<or> (\<exists>hs. hs \<noteq> [] \<and> restrictions (inventory pb') = hs # restrictions (inventory pb))))
   \<and> (run env plays qb = (Inr summary, qb') \<longrightarrow>
         restrictions (inventory qb') = restrictions (inventory qb))"
proof -
  have "restrictions (inventory qb') = restrictions (inventory qb)"
    if "run env plays qb = (Inr summary, qb')"
  proof -
    from that have "run_plays env plays (emit On_start qb) = (None, qb')"
      by (auto simp: run_def split: prod.splits option.splits)
    from run_plays_inventory[OF this] show ?thesis by (simp add: emit_def)
  qed
  moreover have "(r = None \<longrightarrow> restrictions (inventory pb') = restrictions (inventory pb))
     \<and> (r \<noteq> None \<longrightarrow> restrictions (inventory pb') = restrictions (inventory pb)
                     \<or> (\<exists>hs. hs \<noteq> [] \<and> restrictions (inventory pb') = hs # restrictions (inventory pb)))"
    if "run_play env (pl, pb) = (r, pl', pb')"
    using run_play_inventory[OF that] by (auto simp: restrict_to_def)
  ultimately show ?thesis by blast
qed

theorem restriction_lifted_on_return_witness:
  "fst (run_play scripted (mk_play [t_change] [h_restart\<lparr>notify := []\<rparr>], fresh)) = None
   \<and> restrictions (inventory (snd (snd (run_play scripted
        (mk_play [t_change] [h_restart\<lparr>notify := []\<rparr>], fresh))))) = []
   \<and> restrictions (inventory (snd (run scripted [mk_play [t_change] [h_restart\<lparr>notify := []\<rparr>]] fresh))) = []"
proof -
  let ?p = "mk_play [t_change] [h_restart\<lparr>notify := []\<rparr>]"
  let ?a = "run_play scripted (?p, fresh)"
  let ?b = "run scripted [?p] fresh"
  have n: "fst ?a = None" by code_simp
  have a: "?a = (None, fst (snd ?a), snd (snd ?a))"
    unfolding n[symmetric] by simp
  have "case fst ?b of Inl e \<Rightarrow> False | Inr s \<Rightarrow> True" by code_simp
  then obtain s where s: "fst ?b = Inr s" by (cases "fst ?b") auto
  have b: "?b = (Inr s, snd ?b)" unfolding s[symmetric] by simp
  have f: "restrictions (inventory fresh) = []" by code_simp
  note T = restriction_lifted_on_return[of scripted ?p fresh None "fst (snd ?a)" "snd (snd ?a)"
         "[?p]" fresh s "snd ?b"]
  from T[THEN conjunct1, THEN mp, OF a]
  have 1: "restrictions (inventory (snd (snd ?a))) = []" unfolding f by simp
  from T[THEN conjunct2, THEN mp, OF b]
  have 2: "restrictions (inventory (snd ?b)) = []" unfolding f .
  from n 1 2 show ?thesis by simp
qed

text \<open>
  The claim as first stated pairs each push with a lift on error paths too. Here a
  handler notifies a handler that is not defined: \<open>_flag_handler\<close> raises inside the
  handler's run, \<open>run\<close> ends with the error, and the restriction to \<open>[h1]\<close> that
  \<open>_run_play\<close> pushed for the handler is still on the stack.
\<close>

theorem restriction_left_on_error_counterexample:
  "fst (run scripted [p_broken] fresh)
     = Inl (AnsibleError ''change handler (restart-xyz) is not defined'')
   \<and> restrictions (inventory fresh) = []
   \<and> restrictions (inventory (snd (run scripted [p_broken] fresh))) = [[''h1'']]"
  by code_simp

subsection \<open>Properties of every event of a run\<close>

lemma oks_append: "oks ok tr (xs @ ys) = (oks ok tr xs \<and> oks ok (tr @ xs) ys)"
  by (induction xs arbitrary: tr) simp_all

lemma oks_neutral: "(\<And>e tr. e \<in> set evs \<Longrightarrow> ok tr e) \<Longrightarrow> oks ok tr evs"
  by (induction evs arbitrary: tr) simp_all

lemma oks_nth: "oks ok tr evs \<Longrightarrow> k < length evs \<Longrightarrow> ok (tr @ take k evs) (evs ! k)"
proof (induction evs arbitrary: tr k)
  case Nil
  then show ?case by simp
next
  case (Cons e evs)
  show ?case
  proof (cases k)
    case 0
    with Cons.prems show ?thesis by simp
  next
    case (Suc m)
    with Cons.prems have "oks ok (tr @ [e]) evs" "m < length evs" by simp_all
    from Cons.IH[OF this] show ?thesis by (simp add: Suc)
  qed
qed

lemma keepsI: "trace pb' = trace pb @ evs \<Longrightarrow> oks ok (trace pb) evs \<Longrightarrow> keeps ok pb pb'"
  by (simp add: keeps_def new_events_def)

lemma keepsD: "keeps ok pb pb' \<Longrightarrow> \<exists>evs. trace pb' = trace pb @ evs \<and> oks ok (trace pb) evs"
  unfolding keeps_def new_events_def
  by (metis append_take_drop_id)

lemma keeps_same: "trace pb' = trace pb \<Longrightarrow> keeps ok pb pb'"
  by (rule keepsI[of _ _ "[]"]) simp_all

lemma keeps_trans: "keeps ok a b \<Longrightarrow> keeps ok b c \<Longrightarrow> keeps ok a c"
proof -
  assume "keeps ok a b" "keeps ok b c"
  then obtain xs ys where "trace b = trace a @ xs" "oks ok (trace a) xs"
    "trace c = trace b @ ys" "oks ok (trace b) ys"
    by (blast dest: keepsD)
  then show ?thesis
    by (intro keepsI[of _ _ "xs @ ys"]) (simp_all add: oks_append)
qed

lemma keeps_left: "trace a' = trace a \<Longrightarrow> keeps ok a b \<Longrightarrow> keeps ok a' b"
  by (simp add: keeps_def new_events_def)

lemma keeps_right: "trace b' = trace b \<Longrightarrow> keeps ok a b \<Longrightarrow> keeps ok a b'"
  by (simp add: keeps_def new_events_def)

lemma notify_neutral: "list_all is_notify evs \<Longrightarrow> e \<in> set evs \<Longrightarrow> call_of e = None"
  by (cases e) (auto simp: list_all_iff is_notify_def)

lemma task_events_shape:
  "\<exists>rest. task_events env pl t pb = launch env pl t pb # rest \<and> (\<forall>e\<in>set rest. call_of e = None)"
  by (auto simp: task_events_def launch_events_def launch_def)

lemma run_task_keeps:
  assumes "admits env ok" and "run_task env t b (pl, pb) = (r, pl', pb')"
  shows "keeps ok pb pb'"
proof -
  let ?pb1 = "emit (On_task_start (name t) b) pb"
  from assms(1) have N: "\<And>tr e. call_of e = None \<Longrightarrow> ok tr e"
    and T: "ok (trace pb @ [On_task_start (name t) b]) (launch env pl t ?pb1)"
    by (simp_all add: admits_def)
  obtain rest where te: "task_events env pl t ?pb1 = launch env pl t ?pb1 # rest"
    and rest: "\<forall>e\<in>set rest. call_of e = None"
    using task_events_shape by blast
  let ?res = "task_results env pl t ?pb1"
  from run_task_step(3)[OF assms(2)] obtain evs where
    evs: "list_all is_notify evs"
    and tr0: "trace pb' = trace pb @ On_task_start (name t) b # task_events env pl t ?pb1
                @ (if fst (merge_facts (contacted ?res) (SETUP_CACHE pb)) = None
                   then Stats_compute ?res False # evs else [])"
    by blast
  define tl where "tl = (if fst (merge_facts (contacted ?res) (SETUP_CACHE pb)) = None
                   then Stats_compute ?res False # evs else [])"
  have tr: "trace pb' = trace pb @ On_task_start (name t) b # task_events env pl t ?pb1 @ tl"
    using tr0 by (simp add: tl_def)
  have tl: "tl = [] \<or> tl = Stats_compute ?res False # evs"
    by (simp add: tl_def)
  have "\<And>e. e \<in> set tl \<Longrightarrow> call_of e = None"
    using tl notify_neutral[OF evs] by auto
  then have 1: "\<And>tr'. oks ok tr' (rest @ tl)"
    using rest by (intro oks_neutral N) auto
  show ?thesis
    by (rule keepsI[OF tr]) (simp add: te N T 1)
qed

lemma do_setup_step_keeps:
  assumes "admits env ok" and "do_setup_step env vf (pl, pb) = (res, pl', pb')"
    and "vf = None \<longrightarrow> SETUP_CACHE pb = []"
  shows "keeps ok pb pb'"
proof -
  from assms(1) have N: "\<And>tr e. call_of e = None \<Longrightarrow> ok tr e"
    by (simp add: admits_def)
  from assms(2) have tr: "trace pb' = trace pb @ setup_prelude env vf pl pb
                  @ [Runner_run (setup_call env vf pl pb),
                     Stats_compute (setup_results env vf pl pb) True]"
    by (auto simp: do_setup_step_eq)
  have c: "ok (trace pb @ setup_prelude env vf pl pb) (Runner_run (setup_call env vf pl pb))"
  proof (cases vf)
    case None
    with assms(1,3) show ?thesis by (simp add: admits_def setup_prelude_def)
  next
    case (Some fs)
    with assms(1) show ?thesis by (simp add: admits_def)
  qed
  have p: "oks ok (trace pb) (setup_prelude env vf pl pb)"
    by (rule oks_neutral, rule N) (auto simp: setup_prelude_def split: option.splits)
  show ?thesis
    by (rule keepsI[OF tr]) (simp add: oks_append p c N)
qed

lemma run_tasks_keeps:
  assumes "admits env ok"
  shows "run_tasks env ts (pl, pb) = (r, pl', pb') \<Longrightarrow> keeps ok pb pb'"
proof (induction ts arbitrary: pl pb)
  case Nil
  then show ?case by (simp add: keeps_same)
next
  case (Cons t ts)
  obtain r1 pl1 pb1 where t: "run_task env t False (pl, pb) = (r1, pl1, pb1)"
    by (metis prod_cases3)
  note k = run_task_keeps[OF assms t]
  show ?case
  proof (cases r1)
    case None
    with Cons.prems t have "run_tasks env ts (pl1, pb1) = (r, pl', pb')" by simp
    from k Cons.IH[OF this] show ?thesis by (rule keeps_trans)
  next
    case (Some e)
    with Cons.prems t have "pb' = pb1" by simp
    with k show ?thesis by simp
  qed
qed

lemma run_handlers_keeps:
  assumes "admits env ok"
  shows "run_handlers env js (pl, pb) = (r, pl', pb') \<Longrightarrow> keeps ok pb pb'"
proof (induction js arbitrary: pl pb)
  case Nil
  then show ?case by (simp add: keeps_same)
next
  case (Cons i js)
  let ?h = "handlers pl ! i"
  show ?case
  proof (cases "notified_by ?h = []")
    case True
    with Cons.prems have "run_handlers env js (pl, pb) = (r, pl', pb')" by simp
    from Cons.IH[OF this] show ?thesis .
  next
    case False
    let ?pb0 = "pb\<lparr>inventory := restrict_to (notified_by ?h) (inventory pb)\<rparr>"
    obtain r1 pl1 pb1 where t: "run_task env ?h True (pl, ?pb0) = (r1, pl1, pb1)"
      by (metis prod_cases3)
    from run_task_keeps[OF assms t] have k: "keeps ok pb pb1"
      by (rule keeps_left[rotated]) simp
    show ?thesis
    proof (cases r1)
      case None
      let ?pb2 = "pb1\<lparr>inventory := lift_restriction (inventory pb1)\<rparr>"
      from None Cons.prems t False have "run_handlers env js (pl1, ?pb2) = (r, pl', pb')"
        by (simp add: Let_def)
      from Cons.IH[OF this] have "keeps ok pb1 pb'" by (rule keeps_left[rotated]) simp
      with k show ?thesis by (rule keeps_trans)
    next
      case (Some e)
      with Cons.prems t False have "pb' = pb1" by (simp add: Let_def)
      with k show ?thesis by simp
    qed
  qed
qed

lemma after_setup_keeps:
  assumes "admits env ok" and "SETUP_CACHE pb = []"
  shows "keeps ok pb (snd (after_setup env (pl, pb)))"
proof -
  let ?pb0 = "emit (On_play_start (play_name pl)) pb"
  from assms(1) have N: "\<And>tr e. call_of e = None \<Longrightarrow> ok tr e"
    by (simp add: admits_def)
  have k0: "keeps ok pb ?pb0"
    by (rule keepsI[of _ _ "[On_play_start (play_name pl)]"]) (simp_all add: emit_def N)
  obtain res1 pl1 pb1 where s1: "do_setup_step env None (pl, ?pb0) = (res1, pl1, pb1)"
    by (metis prod_cases3)
  have "keeps ok ?pb0 pb1"
    by (rule do_setup_step_keeps[OF assms(1) s1]) (simp add: emit_def assms(2))
  with k0 have k1: "keeps ok pb pb1" by (rule keeps_trans)
  show ?thesis
  proof (cases "vars_files pl1")
    case None
    with s1 k1 show ?thesis by (simp add: after_setup_def)
  next
    case (Some fs)
    show ?thesis
    proof (cases "length fs > 0")
      case True
      obtain res2 pl2 pb2 where s2: "do_setup_step env (Some fs) (pl1, pb1) = (res2, pl2, pb2)"
        by (metis prod_cases3)
      have "keeps ok pb1 pb2" by (rule do_setup_step_keeps[OF assms(1) s2]) simp
      with k1 have "keeps ok pb pb2" by (rule keeps_trans)
      with s1 s2 Some True show ?thesis by (simp add: after_setup_def)
    next
      case False
      with s1 k1 Some show ?thesis by (simp add: after_setup_def)
    qed
  qed
qed

lemma run_play_keeps:
  assumes "admits env ok" and "SETUP_CACHE pb = []"
    and "run_play env (pl, pb) = (r, pl', pb')"
  shows "keeps ok pb pb'"
proof -
  let ?st2 = "after_setup env (pl, pb)"
  obtain pl2 pb2 where st2: "?st2 = (pl2, pb2)" by (cases ?st2)
  from after_setup_keeps[OF assms(1,2), of pl] have k2: "keeps ok pb pb2" by (simp add: st2)
  obtain r3 pl3 pb3 where t: "run_tasks env (tasks pl2) (pl2, pb2) = (r3, pl3, pb3)"
    by (metis prod_cases3)
  from k2 run_tasks_keeps[OF assms(1) t] have k3: "keeps ok pb pb3" by (rule keeps_trans)
  show ?thesis
  proof (cases r3)
    case (Some e)
    with assms(3) t st2 have "pb' = pb3" by (simp add: run_play_eq)
    with k3 show ?thesis by simp
  next
    case None
    with assms(3) t st2
    have "run_handlers env [0 ..< length (handlers pl3)] (pl3, pb3) = (r, pl', pb')"
      by (simp add: run_play_eq)
    from k3 run_handlers_keeps[OF assms(1) this] show ?thesis by (rule keeps_trans)
  qed
qed

lemma run_plays_keeps:
  assumes "admits env ok"
  shows "run_plays env ps pb = (r, pb') \<Longrightarrow> keeps ok pb pb'"
proof (induction ps arbitrary: pb)
  case Nil
  then show ?case by (simp add: keeps_same)
next
  case (Cons p ps)
  obtain r1 pl1 pb1 where p: "run_play env (p, pb\<lparr>SETUP_CACHE := []\<rparr>) = (r1, pl1, pb1)"
    by (metis prod_cases3)
  have "keeps ok (pb\<lparr>SETUP_CACHE := []\<rparr>) pb1"
    by (rule run_play_keeps[OF assms _ p]) simp
  then have k: "keeps ok pb pb1" by (rule keeps_left[rotated]) simp
  show ?case
  proof (cases r1)
    case None
    with Cons.prems p have "run_plays env ps pb1 = (r, pb')" by simp
    from k Cons.IH[OF this] show ?thesis by (rule keeps_trans)
  next
    case (Some e)
    with Cons.prems p have "pb' = pb1" by simp
    with k show ?thesis by simp
  qed
qed

lemma run_keeps:
  assumes "admits env ok" and "run env plays pb = (r, pb')"
  shows "keeps ok pb pb'"
proof -
  from assms(1) have N: "\<And>tr e. call_of e = None \<Longrightarrow> ok tr e"
    by (simp add: admits_def)
  have k0: "keeps ok pb (emit On_start pb)"
    by (rule keepsI[of _ _ "[On_start]"]) (simp_all add: emit_def N)
  obtain r1 pb1 where p: "run_plays env plays (emit On_start pb) = (r1, pb1)"
    by (cases "run_plays env plays (emit On_start pb)")
  with assms(2) have "pb' = pb1" by (auto simp: run_def split: option.splits)
  with k0 run_plays_keeps[OF assms(1) p] show ?thesis by (auto intro: keeps_trans)
qed

lemma list_hosts_restricted:
  "h \<in> set (list_hosts pm (restrict_to hs iv) pat) \<Longrightarrow> h \<in> set hs"
  by (simp add: list_hosts_def restrict_to_def)

lemma working_set_not_excluded:
  "h \<in> set (working_set env pb pat) \<Longrightarrow> \<not> excluded env (trace pb) h"
  by (simp add: working_set_def excluded_def)

lemma dispatch_task_call:
  "h \<in> set (dispatch_set env (task_call env pl t pb)) \<Longrightarrow> \<not> excluded env (trace pb) h"
  by (rule working_set_not_excluded[of _ _ _ None], rule list_hosts_restricted)
     (simp add: dispatch_set_def task_call_def)

lemma dispatch_setup_call:
  assumes "h \<in> set (dispatch_set env (setup_call env vf pl pb))"
  shows "\<not> excluded env (trace pb @ setup_prelude env vf pl pb) h"
proof -
  let ?ws = "working_set env (pb\<lparr>trace := trace pb @ setup_prelude env vf pl pb\<rparr>) (Some (hosts pl))"
  have "dispatch_set env (setup_call env vf pl pb)
          = list_hosts (pattern_match env) (restrict_to ?ws (inventory pb)) (Some (hosts pl))"
    by (simp add: dispatch_set_def setup_call_def)
  with assms have "h \<in> set ?ws" by (simp add: list_hosts_restricted)
  from working_set_not_excluded[OF this] show ?thesis by simp
qed

lemma admits_dispatch_ok: "admits env (dispatch_ok env)"
  unfolding admits_def
proof (intro conjI allI impI)
  fix tr e assume "call_of e = None"
  then show "dispatch_ok env tr e" by (simp add: dispatch_ok_def)
next
  fix pl t pb n b
  show "dispatch_ok env (trace pb @ [On_task_start n b]) (launch env pl t (emit (On_task_start n b) pb))"
    using dispatch_task_call[of _ env pl t "emit (On_task_start n b) pb"]
    by (auto simp: dispatch_ok_def launch_def list_all_iff emit_def)
next
  fix pl pb fs
  show "dispatch_ok env (trace pb @ setup_prelude env (Some fs) pl pb)
          (Runner_run (setup_call env (Some fs) pl pb))"
    using dispatch_setup_call[of _ env "Some fs" pl pb]
    by (auto simp: dispatch_ok_def list_all_iff)
next
  fix pl pb
  show "dispatch_ok env (trace pb @ [On_setup_primary]) (Runner_run (setup_call env None pl pb))"
    using dispatch_setup_call[of _ env None pl pb]
    by (auto simp: dispatch_ok_def list_all_iff setup_prelude_def)
qed

lemma excluded_grows:
  assumes "\<forall>tr e h. excluded env tr h \<longrightarrow> excluded env (tr @ [e]) h"
  shows "excluded env tr h \<Longrightarrow> excluded env (tr @ evs) h"
proof (induction evs rule: rev_induct)
  case Nil
  then show ?case by simp
next
  case (snoc e evs)
  then have "excluded env (tr @ evs) h" by simp
  with assms have "excluded env ((tr @ evs) @ [e]) h" by blast
  then show ?case by simp
qed

lemma excluded_take:
  assumes "\<forall>tr e h. excluded env tr h \<longrightarrow> excluded env (tr @ [e]) h"
    and "i \<le> j" and "excluded env (take i tr) h"
  shows "excluded env (take j tr) h"
proof -
  have "take i (take j tr) @ drop i (take j tr) = take j tr"
    by (rule append_take_drop_id)
  moreover have "take i (take j tr) = take i tr"
    using assms(2) by (simp add: min_def)
  ultimately have "take j tr = take i tr @ drop i (take j tr)" by simp
  with excluded_grows[OF assms(1,3), of "drop i (take j tr)"] show ?thesis by simp
qed

lemma calls_append: "calls (xs @ ys) = calls xs @ calls ys"
  by (induction xs) (simp_all split: option.splits)

lemma calls_neutral: "(\<And>e. e \<in> set evs \<Longrightarrow> call_of e = None) \<Longrightarrow> calls evs = []"
  by (induction evs) simp_all

lemma calls_task_events:
  "calls (task_events env pl t pb) = [task_call env pl t pb]"
proof -
  obtain rest where "task_events env pl t pb = launch env pl t pb # rest"
    and "\<forall>e\<in>set rest. call_of e = None"
    using task_events_shape by blast
  then show ?thesis using calls_neutral[of rest] by (simp add: launch_def)
qed

lemma folds_snoc: "folds (tr @ [e]) = folds tr @ folds [e]"
  by (rule folds_append)

lemma scripted_excluded_mono:
  "excluded scripted tr h \<Longrightarrow> excluded scripted (tr @ [e]) h"
  by (auto simp: excluded_def scripted_def ledger_failures_def ledger_dark_def folds_append)

lemma keeps_nth:
  assumes "keeps ok pb pb'" and "length (trace pb) \<le> j" and "j < length (trace pb')"
  shows "ok (take j (trace pb')) (trace pb' ! j)"
proof -
  from keepsD[OF assms(1)] obtain evs where tr: "trace pb' = trace pb @ evs"
    and o: "oks ok (trace pb) evs" by blast
  let ?k = "j - length (trace pb)"
  from assms(2,3) have k: "?k < length evs" by (simp add: tr)
  from oks_nth[OF o k] assms(2) show ?thesis
    by (simp add: tr nth_append)
qed

text \<open>
  Claim C1. The one Runner call of a task dispatch is handed the inventory restricted
  to the hosts the inventory currently lists that are neither in \<open>stats.failures\<close> nor
  in \<open>stats.dark\<close>; the one Runner call of a setup step is handed the inventory
  restricted to the listed hosts matching the play's pattern, minus the same two sets.
  Consequently, in a whole run, a host that is in \<open>failures\<close> or \<open>dark\<close> at some
  point of the trace is in the dispatch set of no Runner call made from that point on,
  be it for a setup step, a task or a handler. The Stats ledger never removes a host
  from \<open>failures\<close> or \<open>dark\<close>.
\<close>

theorem excluded_hosts_not_dispatched:
  assumes "\<forall>tr e h. excluded env tr h \<longrightarrow> excluded env (tr @ [e]) h"
    and "run env plays pb = (r, pb')"
  shows "map rc_inventory (calls (new_events qb (snd (run_task_internal env pl t qb))))
           = [restrict_to
                (filter (\<lambda>h. \<not> stats_failures env (trace qb) h \<and> \<not> stats_dark env (trace qb) h)
                        (list_hosts (pattern_match env) (inventory qb) None))
                (inventory qb)]
         \<and> map rc_inventory (calls (new_events qb (snd (snd (do_setup_step env vf (pl, qb))))))
           = [restrict_to
                (filter (\<lambda>h. \<not> (stats_failures env (trace qb @ setup_prelude env vf pl qb) h
                               \<or> stats_dark env (trace qb @ setup_prelude env vf pl qb) h))
                        (list_hosts (pattern_match env) (inventory qb) (Some (hosts pl))))
                (inventory qb)]
         \<and> (\<forall>i j c h. i \<le> j \<and> length (trace pb) \<le> j \<and> j < length (trace pb')
                      \<and> call_of (trace pb' ! j) = Some c
                      \<and> excluded env (take i (trace pb')) h
                  \<longrightarrow> h \<notin> set (dispatch_set env c))"
proof -
  have 1: "map rc_inventory (calls (new_events qb (snd (run_task_internal env pl t qb))))
           = [restrict_to
                (filter (\<lambda>h. \<not> stats_failures env (trace qb) h \<and> \<not> stats_dark env (trace qb) h)
                        (list_hosts (pattern_match env) (inventory qb) None))
                (inventory qb)]"
    by (simp add: run_task_internal_eq new_events_def calls_task_events task_call_def
        working_set_def)
  have 2: "map rc_inventory (calls (new_events qb (snd (snd (do_setup_step env vf (pl, qb))))))
           = [restrict_to
                (filter (\<lambda>h. \<not> (stats_failures env (trace qb @ setup_prelude env vf pl qb) h
                               \<or> stats_dark env (trace qb @ setup_prelude env vf pl qb) h))
                        (list_hosts (pattern_match env) (inventory qb) (Some (hosts pl))))
                (inventory qb)]"
  proof -
    have "calls (setup_prelude env vf pl qb) = []"
      by (cases vf) (simp_all add: setup_prelude_def)
    then show ?thesis
      by (simp add: do_setup_step_eq new_events_def calls_append setup_call_def working_set_def)
  qed
  have 3: "h \<notin> set (dispatch_set env c)"
    if "i \<le> j" "length (trace pb) \<le> j" "j < length (trace pb')"
      "call_of (trace pb' ! j) = Some c" "excluded env (take i (trace pb')) h" for i j c h
  proof -
    from run_keeps[OF admits_dispatch_ok assms(2)] have "keeps (dispatch_ok env) pb pb'" .
    from keeps_nth[OF this that(2,3)] that(4)
    have "list_all (\<lambda>h. \<not> excluded env (take j (trace pb')) h) (dispatch_set env c)"
      by (simp add: dispatch_ok_def)
    moreover from excluded_take[OF assms(1) that(1,5)]
    have "excluded env (take j (trace pb')) h" .
    ultimately show ?thesis by (auto simp: list_all_iff)
  qed
  from 1 2 3 show ?thesis by blast
qed

theorem excluded_hosts_not_dispatched_witness:
  "excluded scripted (take 8 (trace (snd (run scripted [p_deploy] fresh)))) ''h2''
   \<and> (case call_of (trace (snd (run scripted [p_deploy] fresh)) ! 10) of
        None \<Rightarrow> False | Some c \<Rightarrow> ''h2'' \<notin> set (dispatch_set scripted c))
   \<and> (case call_of (trace (snd (run scripted [p_deploy] fresh)) ! 13) of
        None \<Rightarrow> False | Some c \<Rightarrow> ''h2'' \<notin> set (dispatch_set scripted c))"
proof -
  let ?run = "run scripted [p_deploy] fresh"
  let ?tr = "trace (snd ?run)"
  have mono: "\<forall>tr e h. excluded scripted tr h \<longrightarrow> excluded scripted (tr @ [e]) h"
    by (simp add: scripted_excluded_mono)
  have run: "?run = (fst ?run, snd ?run)" by simp
  have e: "excluded scripted (take 8 ?tr) ''h2''" by code_simp
  have l: "length (trace fresh) \<le> 10" "length (trace fresh) \<le> 13" "13 < length ?tr" "10 < length ?tr"
    by code_simp+
  have "call_of (?tr ! 10) \<noteq> None" by code_simp
  then obtain c10 where c10: "call_of (?tr ! 10) = Some c10" by blast
  have "call_of (?tr ! 13) \<noteq> None" by code_simp
  then obtain c13 where c13: "call_of (?tr ! 13) = Some c13" by blast
  note T = excluded_hosts_not_dispatched[OF mono run, THEN conjunct2, THEN conjunct2, rule_format]
  have "''h2'' \<notin> set (dispatch_set scripted c10)"
    by (rule T[of 8 10]) (simp add: l c10 e)
  moreover have "''h2'' \<notin> set (dispatch_set scripted c13)"
    by (rule T[of 8 13]) (simp add: l c13 e)
  ultimately show ?thesis using e by (simp add: c10 c13)
qed

lemma admits_primary_fresh: "admits env primary_fresh"
  unfolding admits_def
proof (intro conjI allI impI)
  fix tr e assume "call_of e = None"
  then show "primary_fresh tr e" by (cases e) (simp_all add: primary_fresh_def)
next
  fix pl t pb n b
  show "primary_fresh (trace pb @ [On_task_start n b]) (launch env pl t (emit (On_task_start n b) pb))"
    by (simp add: primary_fresh_def launch_def)
next
  fix pl pb fs
  show "primary_fresh (trace pb @ setup_prelude env (Some fs) pl pb)
          (Runner_run (setup_call env (Some fs) pl pb))"
    by (simp add: primary_fresh_def setup_prelude_def)
next
  fix pl and pb :: playbook assume "SETUP_CACHE pb = []"
  then show "primary_fresh (trace pb @ [On_setup_primary]) (Runner_run (setup_call env None pl pb))"
    by (simp add: primary_fresh_def setup_call_def)
qed

text \<open>
  Claim C3. The primary setup step announces itself with \<open>on_setup_primary\<close> and then
  calls the Runner with the setup cache as it stands. In a whole run, every Runner call
  that directly follows an \<open>on_setup_primary\<close> is handed the empty cache: \<open>run\<close>
  resets the cache before each play, so the facts of an earlier play are gone when the
  next play begins.
\<close>

theorem primary_setup_sees_empty_cache:
  assumes "run env plays pb = (r, pb')"
  shows "new_events qb (snd (snd (do_setup_step env None (pl, qb))))
           = [On_setup_primary, Runner_run (setup_call env None pl qb),
              Stats_compute (setup_results env None pl qb) True]
         \<and> rc_setup_cache (setup_call env None pl qb) = SETUP_CACHE qb
         \<and> (\<forall>j c. length (trace pb) \<le> j \<and> Suc j < length (trace pb')
                  \<and> trace pb' ! j = On_setup_primary \<and> trace pb' ! Suc j = Runner_run c
               \<longrightarrow> rc_setup_cache c = [])"
proof -
  have 1: "new_events qb (snd (snd (do_setup_step env None (pl, qb))))
           = [On_setup_primary, Runner_run (setup_call env None pl qb),
              Stats_compute (setup_results env None pl qb) True]"
    by (simp add: do_setup_step_eq new_events_def setup_prelude_def)
  have 2: "rc_setup_cache (setup_call env None pl qb) = SETUP_CACHE qb"
    by (simp add: setup_call_def)
  have 3: "rc_setup_cache c = []"
    if "length (trace pb) \<le> j" "Suc j < length (trace pb')"
      "trace pb' ! j = On_setup_primary" "trace pb' ! Suc j = Runner_run c" for j c
  proof -
    from run_keeps[OF admits_primary_fresh assms] have k: "keeps primary_fresh pb pb'" .
    from that(1) have "length (trace pb) \<le> Suc j" by simp
    from keeps_nth[OF k this that(2)] that(4)
    have "take (Suc j) (trace pb') \<noteq> [] \<and> last (take (Suc j) (trace pb')) = On_setup_primary
          \<longrightarrow> rc_setup_cache c = []"
      by (simp add: primary_fresh_def)
    moreover from that(2) have "take (Suc j) (trace pb') = take j (trace pb') @ [trace pb' ! j]"
      by (simp add: take_Suc_conv_app_nth)
    ultimately show ?thesis using that(3) by simp
  qed
  from 1 2 3 show ?thesis by blast
qed

theorem primary_setup_sees_empty_cache_witness:
  "SETUP_CACHE (snd (run scripted [p_site] fresh)) \<noteq> []
   \<and> trace (snd (run scripted [p_site, p_site] fresh)) ! 6 = On_setup_primary
   \<and> (case trace (snd (run scripted [p_site, p_site] fresh)) ! 7 of
         Runner_run c \<Rightarrow> rc_setup_cache c = [] | _ \<Rightarrow> False)"
proof -
  let ?run = "run scripted [p_site, p_site] fresh"
  let ?tr = "trace (snd ?run)"
  have run: "?run = (fst ?run, snd ?run)" by simp
  have a: "SETUP_CACHE (snd (run scripted [p_site] fresh)) \<noteq> []" by code_simp
  have l: "length (trace fresh) \<le> 6" "Suc 6 < length ?tr" by code_simp+
  have p: "?tr ! 6 = On_setup_primary" by code_simp
  have "case ?tr ! 7 of Runner_run c \<Rightarrow> True | _ \<Rightarrow> False" by code_simp
  then obtain c where c: "?tr ! 7 = Runner_run c" by (cases "?tr ! 7") simp_all
  then have c': "?tr ! Suc 6 = Runner_run c" by simp
  note T = primary_setup_sees_empty_cache[OF run, THEN conjunct2, THEN conjunct2, rule_format]
  have "rc_setup_cache c = []"
    by (rule T[of 6]) (intro conjI l p c')
  with a p show ?thesis by (simp add: c)
qed

subsection \<open>Plays that differ in their notifications only\<close>

lemma same_play_names:
  assumes "same_play pl pl'"
  shows "map name (handlers pl') = map name (handlers pl)"
proof -
  from assms have "map (\<lambda>x. x\<lparr>notified_by := []\<rparr>) (handlers pl')
                   = map (\<lambda>x. x\<lparr>notified_by := []\<rparr>) (handlers pl)"
    by (simp add: same_play_def)
  then have "map name (map (\<lambda>x. x\<lparr>notified_by := []\<rparr>) (handlers pl'))
             = map name (map (\<lambda>x. x\<lparr>notified_by := []\<rparr>) (handlers pl))"
    by simp
  then show ?thesis by (simp add: o_def)
qed

lemma same_play_tasks: "same_play pl pl' \<Longrightarrow> tasks pl' = tasks pl"
  unfolding same_play_def by (metis play.select_convs(5) play.surjective play.update_convs(6))

lemma same_play_length: "same_play pl pl' \<Longrightarrow> length (handlers pl') = length (handlers pl)"
  using same_play_names by (metis length_map)

lemma same_play_handler:
  assumes "same_play pl pl'" and "i < length (handlers pl)"
  shows "(handlers pl' ! i)\<lparr>notified_by := []\<rparr> = (handlers pl ! i)\<lparr>notified_by := []\<rparr>"
proof -
  from assms(1) have e: "map (\<lambda>x. x\<lparr>notified_by := []\<rparr>) (handlers pl')
                   = map (\<lambda>x. x\<lparr>notified_by := []\<rparr>) (handlers pl)"
    by (simp add: same_play_def)
  from assms have "i < length (handlers pl')" by (simp add: same_play_length)
  with assms(2) e show ?thesis by (metis nth_map)
qed

lemma flag_handler_defined:
  assumes "list_ex (\<lambda>x. name x = hn) hds"
  shows "fst (flag_handler hds hn h pb) = None"
    and "map name (fst (snd (flag_handler hds hn h pb))) = map name hds"
  using assms by (simp_all add: flag_handler_eq list_ex_iff o_def)

lemma notify_names_ok:
  "list_all (\<lambda>n. list_ex (\<lambda>x. name x = template env n (module_vars t)) (handlers pl)) ns \<Longrightarrow>
   fst (notify_names env t h ns (pl, pb)) = None"
proof (induction ns arbitrary: pl pb)
  case Nil
  then show ?case by simp
next
  case (Cons n ns)
  let ?hn = "template env n (module_vars t)"
  obtain r1 hds1 pb1 where f: "flag_handler (handlers pl) ?hn h pb = (r1, hds1, pb1)"
    by (metis prod_cases3)
  from Cons.prems have d: "list_ex (\<lambda>x. name x = ?hn) (handlers pl)" by simp
  from flag_handler_defined[OF d, of h pb] f
  have r1: "r1 = None" and names: "map name hds1 = map name (handlers pl)" by simp_all
  have "list_all (\<lambda>n. list_ex (\<lambda>x. name x = template env n (module_vars t))
                            (handlers (pl\<lparr>handlers := hds1\<rparr>))) ns"
  proof -
    have "name ` set hds1 = name ` set (handlers pl)" using names by (metis set_map)
    then have "\<And>v. (\<exists>x\<in>set hds1. name x = v) = (\<exists>x\<in>set (handlers pl). name x = v)"
      by (metis (no_types, opaque_lifting) imageE image_eqI)
    with Cons.prems show ?thesis by (simp add: list_ex_iff list_all_iff)
  qed
  from Cons.IH[OF this] f r1 show ?case by simp
qed

lemma run_tasks_same_play:
  "run_tasks env ts (pl, pb) = (r, pl', pb') \<Longrightarrow> same_play pl pl'"
proof (induction ts arbitrary: pl pb)
  case Nil
  then show ?case by (simp add: same_play_refl)
next
  case (Cons t ts)
  obtain r1 pl1 pb1 where t: "run_task env t False (pl, pb) = (r1, pl1, pb1)"
    by (metis prod_cases3)
  note s = run_task_step(2)[OF t]
  show ?case
  proof (cases r1)
    case None
    with Cons.prems t have "run_tasks env ts (pl1, pb1) = (r, pl', pb')" by simp
    from s Cons.IH[OF this] show ?thesis by (rule same_play_trans)
  next
    case (Some e)
    with Cons.prems t have "pl' = pl1" by simp
    with s show ?thesis by simp
  qed
qed

lemma fold_summary_lookup:
  "map_of (fold (\<lambda>h res. AList.update h (f h) res) hs acc) h
     = (if h \<in> set hs then Some (f h) else map_of acc h)"
  by (induction hs arbitrary: acc) (auto simp: update_conv')

subsection \<open>Handlers\<close>

lemma starts_append: "starts (xs @ ys) = starts xs @ starts ys"
  by (induction xs rule: starts.induct) simp_all

lemma starts_none: "(\<And>e. e \<in> set evs \<Longrightarrow> \<forall>n b. e \<noteq> On_task_start n b) \<Longrightarrow> starts evs = []"
proof (induction evs)
  case Nil
  then show ?case by simp
next
  case (Cons e evs)
  then have "\<forall>n b. e \<noteq> On_task_start n b" and "starts evs = []" by simp_all
  then show ?case by (cases e) auto
qed

lemma starts_task_events: "starts (task_events env pl t pb) = []"
  by (rule starts_none) (auto simp: task_events_def launch_events_def split: if_splits)

lemma starts_notify: "list_all is_notify evs \<Longrightarrow> starts evs = []"
  by (rule starts_none) (auto simp: list_all_iff is_notify_def)

lemma run_task_starts:
  assumes "run_task env t b (pl, pb) = (r, pl', pb')"
  shows "trace pb' = trace pb @ new_events pb pb'"
    and "starts (new_events pb pb') = [(name t, b)]"
    and "hd (new_events pb pb') = On_task_start (name t) b"
    and "calls (new_events pb pb') = [task_call env pl t (emit (On_task_start (name t) b) pb)]"
proof -
  let ?pb1 = "emit (On_task_start (name t) b) pb"
  from run_task_step(3)[OF assms] obtain evs where
    evs: "list_all is_notify evs"
    and tr0: "trace pb' = trace pb @ On_task_start (name t) b # task_events env pl t ?pb1
                @ (if fst (merge_facts (contacted (task_results env pl t ?pb1)) (SETUP_CACHE pb)) = None
                   then Stats_compute (task_results env pl t ?pb1) False # evs else [])"
    by blast
  define tl where "tl = (if fst (merge_facts (contacted (task_results env pl t ?pb1)) (SETUP_CACHE pb)) = None
                   then Stats_compute (task_results env pl t ?pb1) False # evs else [])"
  have tr: "trace pb' = trace pb @ On_task_start (name t) b # task_events env pl t ?pb1 @ tl"
    using tr0 by (simp add: tl_def)
  then have new: "new_events pb pb' = On_task_start (name t) b # task_events env pl t ?pb1 @ tl"
    by (rule new_events_append)
  have s: "starts tl = []" using starts_notify[OF evs] by (simp add: tl_def)
  have c: "calls tl = []"
    using calls_neutral[of evs] notify_neutral[OF evs] by (simp add: tl_def)
  show "trace pb' = trace pb @ new_events pb pb'" using tr new by simp
  show "starts (new_events pb pb') = [(name t, b)]"
    by (simp add: new starts_append starts_task_events s)
  show "hd (new_events pb pb') = On_task_start (name t) b" by (simp add: new)
  show "calls (new_events pb pb') = [task_call env pl t ?pb1]"
    by (simp add: new calls_append calls_task_events c)
qed

lemma new_events_trans:
  assumes "trace b = trace a @ new_events a b" and "trace c = trace b @ new_events b c"
  shows "trace c = trace a @ new_events a c \<and> new_events a c = new_events a b @ new_events b c"
proof -
  from assms have "trace c = trace a @ (new_events a b @ new_events b c)" by simp
  from new_events_append[OF this] this show ?thesis by simp
qed

lemma run_tasks_starts:
  "run_tasks env ts (pl, pb) = (None, pl', pb') \<Longrightarrow>
   trace pb' = trace pb @ new_events pb pb'
   \<and> starts (new_events pb pb') = map (\<lambda>t. (name t, False)) ts"
proof (induction ts arbitrary: pl pb)
  case Nil
  then show ?case by (simp add: new_events_def)
next
  case (Cons t ts)
  obtain r1 pl1 pb1 where t: "run_task env t False (pl, pb) = (r1, pl1, pb1)"
    by (metis prod_cases3)
  with Cons.prems have r1: "r1 = None" by (cases r1) simp_all
  with Cons.prems t have "run_tasks env ts (pl1, pb1) = (None, pl', pb')" by simp
  from Cons.IH[OF this] have 2: "trace pb' = trace pb1 @ new_events pb1 pb'"
    and s2: "starts (new_events pb1 pb') = map (\<lambda>t. (name t, False)) ts" by simp_all
  note 1 = run_task_starts(1,2)[OF t]
  from new_events_trans[OF 1(1) 2] 1(2) s2 show ?case by (simp add: starts_append)
qed

lemma starts_setup: "starts (setup_prelude env vf pl pb) = []"
  by (cases vf) (simp_all add: setup_prelude_def)

lemma do_setup_step_shape:
  assumes "do_setup_step env vf (pl, pb) = (res, pl', pb')"
  shows "trace pb' = trace pb @ new_events pb pb'" and "starts (new_events pb pb') = []"
    and "tasks pl' = tasks pl" and "handlers pl' = handlers pl"
proof -
  from assms have tr: "trace pb' = trace pb @ setup_prelude env vf pl pb
                  @ [Runner_run (setup_call env vf pl pb),
                     Stats_compute (setup_results env vf pl pb) True]"
    and pl': "pl' = setup_play env vf pl pb"
    by (auto simp: do_setup_step_eq)
  note new = new_events_append[OF tr]
  show "trace pb' = trace pb @ new_events pb pb'" using tr new by simp
  show "starts (new_events pb pb') = []" by (simp add: new starts_append starts_setup)
  show "tasks pl' = tasks pl" "handlers pl' = handlers pl"
    by (cases vf; simp add: pl' setup_play_def)+
qed

lemma after_setup_shape:
  assumes "after_setup env (pl, pb) = (pl2, pb2)"
  shows "trace pb2 = trace pb @ new_events pb pb2" and "starts (new_events pb pb2) = []"
    and "tasks pl2 = tasks pl" and "handlers pl2 = handlers pl"
proof -
  let ?pb0 = "emit (On_play_start (play_name pl)) pb"
  obtain res1 pl1 pb1 where s1: "do_setup_step env None (pl, ?pb0) = (res1, pl1, pb1)"
    by (metis prod_cases3)
  note a = do_setup_step_shape[OF s1]
  have 0: "trace ?pb0 = trace pb @ new_events pb ?pb0" "starts (new_events pb ?pb0) = []"
    by (simp_all add: emit_def new_events_def)
  from new_events_trans[OF 0(1) a(1)] 0(2) a(2)
  have 1: "trace pb1 = trace pb @ new_events pb pb1" "starts (new_events pb pb1) = []"
    by (simp_all add: starts_append)
  have "trace pb2 = trace pb @ new_events pb pb2 \<and> starts (new_events pb pb2) = []
        \<and> tasks pl2 = tasks pl \<and> handlers pl2 = handlers pl"
  proof (cases "vars_files pl1")
    case None
    with assms s1 have "pl2 = pl1" "pb2 = pb1" by (simp_all add: after_setup_def)
    with 1 a(3,4) show ?thesis by simp
  next
    case (Some fs)
    show ?thesis
    proof (cases "length fs > 0")
      case False
      with Some assms s1 have "pl2 = pl1" "pb2 = pb1" by (simp_all add: after_setup_def)
      with 1 a(3,4) show ?thesis by simp
    next
      case True
      obtain res2 pl2' pb2' where s2: "do_setup_step env (Some fs) (pl1, pb1) = (res2, pl2', pb2')"
        by (metis prod_cases3)
      with True Some assms s1 have e: "pl2 = pl2'" "pb2 = pb2'" by (simp_all add: after_setup_def)
      note b = do_setup_step_shape[OF s2]
      from new_events_trans[OF 1(1) b(1)] 1(2) b(2) a(3,4) b(3,4) show ?thesis
        by (simp add: e starts_append)
    qed
  qed
  then show "trace pb2 = trace pb @ new_events pb pb2" and "starts (new_events pb pb2) = []"
    and "tasks pl2 = tasks pl" and "handlers pl2 = handlers pl" by simp_all
qed

lemma map_index: "map (\<lambda>i. f (xs ! i)) [0 ..< length xs] = map f xs"
proof -
  have "map f (map (\<lambda>i. xs ! i) [0 ..< length xs]) = map f xs" by (simp add: map_nth)
  then show ?thesis by (simp add: o_def)
qed

lemma handler_dispatch:
  "set (dispatch_set env (task_call env pl t (emit e (pb\<lparr>inventory := restrict_to hs (inventory pb)\<rparr>))))
     \<subseteq> set hs"
  by (auto simp: dispatch_set_def task_call_def list_hosts_def restrict_to_def emit_def)

lemma run_handlers_append:
  "run_handlers env (js @ ks) st =
     (case run_handlers env js st of
        (Some e, st') \<Rightarrow> (Some e, st')
      | (None, st') \<Rightarrow> run_handlers env ks st')"
proof (induction js arbitrary: st)
  case Nil
  then show ?case by simp
next
  case (Cons i js)
  obtain pl pb where st: "st = (pl, pb)" by (cases st)
  show ?case
  proof (cases "notified_by (handlers pl ! i) = []")
    case True
    with Cons.IH[of "(pl, pb)"] show ?thesis by (simp add: st)
  next
    case False
    let ?t = "run_task env (handlers pl ! i) True
                (pl, pb\<lparr>inventory := restrict_to (notified_by (handlers pl ! i)) (inventory pb)\<rparr>)"
    obtain r1 pl1 pb1 where t: "?t = (r1, pl1, pb1)" by (metis prod_cases3)
    show ?thesis
    proof (cases r1)
      case None
      with False t Cons.IH[of "(pl1, pb1\<lparr>inventory := lift_restriction (inventory pb1)\<rparr>)"]
      show ?thesis by (simp add: st Let_def)
    next
      case (Some e)
      with False t show ?thesis by (simp add: st Let_def)
    qed
  qed
qed

lemma run_handlers_prefix:
  assumes "run_handlers env (js @ ks) st = (None, st')"
  shows "run_handlers env js st = (None, snd (run_handlers env js st))"
    and "run_handlers env ks (snd (run_handlers env js st)) = (None, st')"
proof -
  obtain r1 st1 where j: "run_handlers env js st = (r1, st1)" by (cases "run_handlers env js st")
  with assms have r1: "r1 = None" by (cases r1) (simp_all add: run_handlers_append)
  with j show "run_handlers env js st = (None, snd (run_handlers env js st))" by simp
  from assms j r1 show "run_handlers env ks (snd (run_handlers env js st)) = (None, st')"
    by (simp add: run_handlers_append)
qed

lemma run_handlers_same_play:
  "run_handlers env js (pl, pb) = (r, pl', pb') \<Longrightarrow> same_play pl pl'"
proof (induction js arbitrary: pl pb)
  case Nil
  then show ?case by (simp add: same_play_refl)
next
  case (Cons i js)
  let ?h = "handlers pl ! i"
  show ?case
  proof (cases "notified_by ?h = []")
    case True
    with Cons.prems have "run_handlers env js (pl, pb) = (r, pl', pb')" by simp
    from Cons.IH[OF this] show ?thesis .
  next
    case False
    let ?pb0 = "pb\<lparr>inventory := restrict_to (notified_by ?h) (inventory pb)\<rparr>"
    obtain r1 pl1 pb1 where t: "run_task env ?h True (pl, ?pb0) = (r1, pl1, pb1)"
      by (metis prod_cases3)
    note s = run_task_step(2)[OF t]
    show ?thesis
    proof (cases r1)
      case None
      with Cons.prems t False
      have "run_handlers env js (pl1, pb1\<lparr>inventory := lift_restriction (inventory pb1)\<rparr>) = (r, pl', pb')"
        by (simp add: Let_def)
      from s Cons.IH[OF this] show ?thesis by (rule same_play_trans)
    next
      case (Some e)
      with Cons.prems t False have "pl' = pl1" by (simp add: Let_def)
      with s show ?thesis by simp
    qed
  qed
qed

lemma ran_snoc:
  "length ns = length bs \<Longrightarrow>
   ran (ns @ [n]) (bs @ [b]) = ran ns bs @ (if b then [(n, True)] else [])"
  by (simp add: ran_def)

text \<open>One turn of the handler loop, from the state in which it reaches a handler.\<close>

lemma handler_turn:
  assumes "run_handlers env [k] (pl, pb) = (None, pl', pb')"
  shows "notified_by (handlers pl ! k) = [] \<longrightarrow> (pl', pb') = (pl, pb)"
    and "notified_by (handlers pl ! k) \<noteq> [] \<longrightarrow>
           hd (new_events pb pb') = On_task_start (name (handlers pl ! k)) True
         \<and> starts (new_events pb pb') = [(name (handlers pl ! k), True)]
         \<and> length (calls (new_events pb pb')) = 1
         \<and> list_all (\<lambda>c. set (dispatch_set env c) \<subseteq> set (notified_by (handlers pl ! k))
                        \<and> tl (restrictions (rc_inventory c))
                            = notified_by (handlers pl ! k) # restrictions (inventory pb))
                     (calls (new_events pb pb'))
         \<and> inventory pb' = inventory pb"
    and "trace pb' = trace pb @ new_events pb pb'"
    and "starts (new_events pb pb')
           = (if notified_by (handlers pl ! k) \<noteq> [] then [(name (handlers pl ! k), True)] else [])"
proof -
  let ?h = "handlers pl ! k"
  let ?pb0 = "pb\<lparr>inventory := restrict_to (notified_by ?h) (inventory pb)\<rparr>"
  have "(notified_by ?h = [] \<longrightarrow> (pl', pb') = (pl, pb))
        \<and> (notified_by ?h \<noteq> [] \<longrightarrow>
           hd (new_events pb pb') = On_task_start (name ?h) True
         \<and> starts (new_events pb pb') = [(name ?h, True)]
         \<and> length (calls (new_events pb pb')) = 1
         \<and> list_all (\<lambda>c. set (dispatch_set env c) \<subseteq> set (notified_by ?h)
                        \<and> tl (restrictions (rc_inventory c))
                            = notified_by ?h # restrictions (inventory pb))
                     (calls (new_events pb pb'))
         \<and> inventory pb' = inventory pb)
        \<and> trace pb' = trace pb @ new_events pb pb'
        \<and> starts (new_events pb pb') = (if notified_by ?h \<noteq> [] then [(name ?h, True)] else [])"
  proof (cases "notified_by ?h = []")
    case True
    with assms have "(pl', pb') = (pl, pb)" by simp
    with True show ?thesis by (simp add: new_events_def)
  next
    case False
    obtain r1 pl1 pb1 where t: "run_task env ?h True (pl, ?pb0) = (r1, pl1, pb1)"
      by (metis prod_cases3)
    with assms False have r1: "r1 = None" by (cases r1) (simp_all add: Let_def)
    with assms False t have e: "pl' = pl1" "pb' = pb1\<lparr>inventory := lift_restriction (inventory pb1)\<rparr>"
      by (simp_all add: Let_def)
    have n: "new_events pb pb' = new_events ?pb0 pb1" by (simp add: e new_events_def)
    note s = run_task_starts[OF t]
    have c: "tl (restrictions (rc_inventory (task_call env pl ?h (emit (On_task_start (name ?h) True) ?pb0))))
               = notified_by ?h # restrictions (inventory pb)"
      by (simp add: task_call_def restrict_to_def emit_def)
    from run_task_step(1)[OF t] have i: "inventory pb' = inventory pb"
      by (simp add: e lift_restrict)
    have "trace pb' = trace pb1" by (simp add: e)
    moreover from s(1) have "trace pb1 = trace pb @ new_events ?pb0 pb1" by simp
    ultimately have tr: "trace pb' = trace pb @ new_events pb pb'" unfolding n by simp
    from False s(2,3,4) c i tr show ?thesis
      by (simp add: n handler_dispatch)
  qed
  then show "notified_by ?h = [] \<longrightarrow> (pl', pb') = (pl, pb)"
    and "notified_by ?h \<noteq> [] \<longrightarrow>
           hd (new_events pb pb') = On_task_start (name ?h) True
         \<and> starts (new_events pb pb') = [(name ?h, True)]
         \<and> length (calls (new_events pb pb')) = 1
         \<and> list_all (\<lambda>c. set (dispatch_set env c) \<subseteq> set (notified_by ?h)
                        \<and> tl (restrictions (rc_inventory c))
                            = notified_by ?h # restrictions (inventory pb))
                     (calls (new_events pb pb'))
         \<and> inventory pb' = inventory pb"
    and "trace pb' = trace pb @ new_events pb pb'"
    and "starts (new_events pb pb') = (if notified_by ?h \<noteq> [] then [(name ?h, True)] else [])"
    by blast+
qed

lemma play_to_handler_phase:
  assumes "run_play env (pl, pb) = (None, pl', pb')"
  shows "run_tasks env (tasks (fst (after_setup env (pl, pb)))) (after_setup env (pl, pb))
           = (None, after_tasks env (pl, pb))"
    and "run_handlers env [0 ..< length (handlers pl)] (after_tasks env (pl, pb)) = (None, pl', pb')"
    and "same_play (fst (after_setup env (pl, pb))) (fst (after_tasks env (pl, pb)))"
    and "handlers (fst (after_setup env (pl, pb))) = handlers pl"
    and "trace (snd (after_tasks env (pl, pb))) = trace pb @ new_events pb (snd (after_tasks env (pl, pb)))"
    and "starts (new_events pb (snd (after_tasks env (pl, pb)))) = map (\<lambda>t. (name t, False)) (tasks pl)"
proof -
  obtain pl2 pb2 where st2: "after_setup env (pl, pb) = (pl2, pb2)"
    by (cases "after_setup env (pl, pb)")
  note a = after_setup_shape[OF st2]
  obtain r3 pl3 pb3 where t: "run_tasks env (tasks pl2) (pl2, pb2) = (r3, pl3, pb3)"
    by (metis prod_cases3)
  with assms st2 have r3: "r3 = None" by (cases r3) (simp_all add: run_play_eq)
  have at: "after_tasks env (pl, pb) = (pl3, pb3)" by (simp add: after_tasks_def st2 t)
  note s = run_tasks_same_play[OF t]
  have len: "length (handlers pl3) = length (handlers pl)"
    using same_play_length[OF s] by (simp add: a(4))
  from assms st2 t r3
  have h: "run_handlers env [0 ..< length (handlers pl3)] (pl3, pb3) = (None, pl', pb')"
    by (simp add: run_play_eq)
  from run_tasks_starts[OF t[unfolded r3]]
  have b: "trace pb3 = trace pb2 @ new_events pb2 pb3"
    "starts (new_events pb2 pb3) = map (\<lambda>t. (name t, False)) (tasks pl)"
    by (simp_all add: a(3))
  from new_events_trans[OF a(1) b(1)]
  have ab: "trace pb3 = trace pb @ new_events pb pb3"
    "new_events pb pb3 = new_events pb pb2 @ new_events pb2 pb3" by simp_all
  show "run_tasks env (tasks (fst (after_setup env (pl, pb)))) (after_setup env (pl, pb))
           = (None, after_tasks env (pl, pb))"
    using t r3 by (simp add: st2 at)
  show "run_handlers env [0 ..< length (handlers pl)] (after_tasks env (pl, pb)) = (None, pl', pb')"
    using h by (simp add: at len)
  show "same_play (fst (after_setup env (pl, pb))) (fst (after_tasks env (pl, pb)))"
    using s by (simp add: st2 at)
  show "handlers (fst (after_setup env (pl, pb))) = handlers pl" by (simp add: st2 a(4))
  show "trace (snd (after_tasks env (pl, pb))) = trace pb @ new_events pb (snd (after_tasks env (pl, pb)))"
    using ab(1) by (simp add: at)
  show "starts (new_events pb (snd (after_tasks env (pl, pb)))) = map (\<lambda>t. (name t, False)) (tasks pl)"
    by (simp add: at ab(2) starts_append a(2) b(2))
qed

lemma upt_split: "k \<le> n \<Longrightarrow> [0 ..< n] = [0 ..< k] @ [k ..< n]"
  by (metis le0 upt_add_eq_append le_add_diff_inverse)

lemma reached_turn:
  assumes "run_play env (pl, pb) = (None, pl', pb')" and "k < length (handlers pl)"
  shows "run_handlers env [k] (reached env (pl, pb) k) = (None, reached env (pl, pb) (Suc k))"
    and "same_play (fst (after_tasks env (pl, pb))) (fst (reached env (pl, pb) k))"
    and "name (handlers (fst (reached env (pl, pb) k)) ! k) = name (handlers pl ! k)"
proof -
  let ?st3 = "after_tasks env (pl, pb)"
  note p = play_to_handler_phase[OF assms(1)]
  from assms(2) have "[0 ..< length (handlers pl)] = [0 ..< Suc k] @ [Suc k ..< length (handlers pl)]"
    by (intro upt_split) simp
  with p(2) have "run_handlers env ([0 ..< Suc k] @ [Suc k ..< length (handlers pl)]) ?st3 = (None, pl', pb')"
    by simp
  from run_handlers_prefix(1)[OF this]
  have sk: "run_handlers env [0 ..< Suc k] ?st3 = (None, reached env (pl, pb) (Suc k))"
    by (simp add: reached_def)
  then have "run_handlers env ([0 ..< k] @ [k]) ?st3 = (None, reached env (pl, pb) (Suc k))"
    by simp
  from run_handlers_prefix[OF this]
  have k0: "run_handlers env [0 ..< k] ?st3 = (None, reached env (pl, pb) k)"
    and "run_handlers env [k] (reached env (pl, pb) k) = (None, reached env (pl, pb) (Suc k))"
    by (simp_all add: reached_def)
  then show "run_handlers env [k] (reached env (pl, pb) k) = (None, reached env (pl, pb) (Suc k))"
    by simp
  obtain pl3 pb3 where st3: "?st3 = (pl3, pb3)" by (cases ?st3)
  obtain plk pbk where rk: "reached env (pl, pb) k = (plk, pbk)" by (cases "reached env (pl, pb) k")
  from k0 have "run_handlers env [0 ..< k] (pl3, pb3) = (None, plk, pbk)" by (simp add: st3 rk)
  from run_handlers_same_play[OF this] have s: "same_play pl3 plk" .
  then show sp: "same_play (fst ?st3) (fst (reached env (pl, pb) k))" by (simp add: st3 rk)
  from p(3) have s2: "same_play (fst (after_setup env (pl, pb))) pl3" by (simp add: st3)
  from same_play_names[OF same_play_trans[OF s2 s]] p(4)
  have names: "map name (handlers plk) = map name (handlers pl)" by simp
  then have "length (handlers plk) = length (handlers pl)" by (metis length_map)
  with assms(2) names have "name (handlers plk ! k) = name (handlers pl ! k)"
    by (metis nth_map)
  then show "name (handlers (fst (reached env (pl, pb) k)) ! k) = name (handlers pl ! k)"
    by (simp add: rk)
qed

lemma reached_starts:
  assumes "run_play env (pl, pb) = (None, pl', pb')"
  shows "k \<le> length (handlers pl) \<Longrightarrow>
         trace (snd (reached env (pl, pb) k))
           = trace (snd (after_tasks env (pl, pb)))
             @ new_events (snd (after_tasks env (pl, pb))) (snd (reached env (pl, pb) k))
         \<and> starts (new_events (snd (after_tasks env (pl, pb))) (snd (reached env (pl, pb) k)))
             = ran (map name (take k (handlers pl))) (map (runs env (pl, pb)) [0 ..< k])"
proof (induction k)
  case 0
  then show ?case by (simp add: reached_def new_events_def ran_def)
next
  case (Suc k)
  then have k: "k < length (handlers pl)" and "k \<le> length (handlers pl)" by simp_all
  with Suc.IH have ih: "trace (snd (reached env (pl, pb) k))
           = trace (snd (after_tasks env (pl, pb)))
             @ new_events (snd (after_tasks env (pl, pb))) (snd (reached env (pl, pb) k))"
    "starts (new_events (snd (after_tasks env (pl, pb))) (snd (reached env (pl, pb) k)))
             = ran (map name (take k (handlers pl))) (map (runs env (pl, pb)) [0 ..< k])"
    by simp_all
  obtain plk pbk where rk: "reached env (pl, pb) k = (plk, pbk)" by (cases "reached env (pl, pb) k")
  obtain pln pbn where rn: "reached env (pl, pb) (Suc k) = (pln, pbn)"
    by (cases "reached env (pl, pb) (Suc k)")
  note t = reached_turn[OF assms k]
  from t(1) have turn: "run_handlers env [k] (plk, pbk) = (None, pln, pbn)" by (simp add: rk rn)
  note h = handler_turn(3,4)[OF turn]
  from t(3) have nm: "name (handlers plk ! k) = name (handlers pl ! k)" by (simp add: rk)
  have rs: "runs env (pl, pb) k = (notified_by (handlers plk ! k) \<noteq> [])" by (simp add: runs_def rk)
  from ih(1) h(1) have 1: "trace pbk = trace (snd (after_tasks env (pl, pb)))
             @ new_events (snd (after_tasks env (pl, pb))) pbk" by (simp add: rk)
  from new_events_trans[OF 1 h(1)]
  have tr: "trace pbn = trace (snd (after_tasks env (pl, pb)))
              @ new_events (snd (after_tasks env (pl, pb))) pbn"
    and new: "new_events (snd (after_tasks env (pl, pb))) pbn
                = new_events (snd (after_tasks env (pl, pb))) pbk @ new_events pbk pbn"
    by simp_all
  have tk: "take (Suc k) (handlers pl) = take k (handlers pl) @ [handlers pl ! k]"
    using k by (rule take_Suc_conv_app_nth)
  have "starts (new_events (snd (after_tasks env (pl, pb))) pbn)
          = ran (map name (take (Suc k) (handlers pl))) (map (runs env (pl, pb)) [0 ..< Suc k])"
    using ih(2) h(2) k
    by (simp add: new starts_append rk tk ran_snoc rs nm)
  with tr show ?case by (simp add: rn)
qed

text \<open>
  Claim C7. In a play that returns, all tasks have been started, in declaration order,
  before the handler loop begins, and the loop then takes the handlers one by one in
  declaration order: \<open>reached k\<close> is the state in which it reaches handler \<open>k\<close>,
  \<open>reached 0\<close> is the state the tasks leave, the state reached after the last
  handler is the result of the play, and each state follows from the one before by one
  turn of the loop. Handler \<open>k\<close> runs if and only if its \<open>notified_by\<close> is not empty
  in the state in which it is reached: then it is started as a task with
  \<open>is_handler = True\<close>, its one Runner call finds \<open>notified_by\<close> on the restriction
  stack below the working set and reaches hosts of \<open>notified_by\<close> only, and after
  the turn the inventory is as it was before; otherwise the turn changes nothing. So
  the task starts of the play are those of the tasks followed by those of exactly the
  handlers that run. The last two parts give one turn of the loop from any state.
\<close>

theorem handlers_after_tasks:
  "(run_play env (pl, pb) = (None, pl', pb') \<longrightarrow>
      starts (new_events pb (snd (after_tasks env (pl, pb))))
        = map (\<lambda>t. (name t, False)) (tasks pl)
    \<and> reached env (pl, pb) 0 = after_tasks env (pl, pb)
    \<and> reached env (pl, pb) (length (handlers pl)) = (pl', pb')
    \<and> starts (new_events pb pb')
        = map (\<lambda>t. (name t, False)) (tasks pl)
          @ ran (map name (handlers pl)) (map (runs env (pl, pb)) [0 ..< length (handlers pl)])
    \<and> (\<forall>k<length (handlers pl).
          name (handlers (fst (reached env (pl, pb) k)) ! k) = name (handlers pl ! k)
        \<and> run_handlers env [k] (reached env (pl, pb) k) = (None, reached env (pl, pb) (Suc k))
        \<and> (\<not> runs env (pl, pb) k \<longrightarrow> reached env (pl, pb) (Suc k) = reached env (pl, pb) k)
        \<and> (runs env (pl, pb) k \<longrightarrow>
              hd (new_events (snd (reached env (pl, pb) k)) (snd (reached env (pl, pb) (Suc k))))
                = On_task_start (name (handlers pl ! k)) True
            \<and> length (calls (new_events (snd (reached env (pl, pb) k))
                                         (snd (reached env (pl, pb) (Suc k))))) = 1
            \<and> list_all (\<lambda>c. set (dispatch_set env c)
                                \<subseteq> set (notified_by (handlers (fst (reached env (pl, pb) k)) ! k))
                            \<and> tl (restrictions (rc_inventory c))
                                = notified_by (handlers (fst (reached env (pl, pb) k)) ! k)
                                  # restrictions (inventory (snd (reached env (pl, pb) k))))
                        (calls (new_events (snd (reached env (pl, pb) k))
                                           (snd (reached env (pl, pb) (Suc k)))))
            \<and> inventory (snd (reached env (pl, pb) (Suc k)))
                = inventory (snd (reached env (pl, pb) k)))))
   \<and> (notified_by (handlers ql ! i) = [] \<longrightarrow>
         run_handlers env (i # js) (ql, qb) = run_handlers env js (ql, qb))
   \<and> (notified_by (handlers ql ! i) \<noteq> []
        \<and> run_task env (handlers ql ! i) True
             (ql, qb\<lparr>inventory := restrict_to (notified_by (handlers ql ! i)) (inventory qb)\<rparr>)
            = (r, ql', qb') \<longrightarrow>
         hd (new_events qb qb') = On_task_start (name (handlers ql ! i)) True
         \<and> length (calls (new_events qb qb')) = 1
         \<and> list_all (\<lambda>c. set (dispatch_set env c) \<subseteq> set (notified_by (handlers ql ! i)))
                     (calls (new_events qb qb'))
         \<and> inventory qb' = restrict_to (notified_by (handlers ql ! i)) (inventory qb)
         \<and> run_handlers env (i # js) (ql, qb)
             = (if r = None then run_handlers env js (ql', qb'\<lparr>inventory := inventory qb\<rparr>)
                else (r, ql', qb')))"
proof (intro conjI impI allI)
  assume run: "run_play env (pl, pb) = (None, pl', pb')"
  note p = play_to_handler_phase[OF run]
  show a: "starts (new_events pb (snd (after_tasks env (pl, pb))))
        = map (\<lambda>t. (name t, False)) (tasks pl)" by (rule p(6))
  show "reached env (pl, pb) 0 = after_tasks env (pl, pb)" by (simp add: reached_def)
  show b: "reached env (pl, pb) (length (handlers pl)) = (pl', pb')"
    using p(2) by (simp add: reached_def)
  from reached_starts[OF run, of "length (handlers pl)"]
  have c: "trace pb' = trace (snd (after_tasks env (pl, pb)))
                         @ new_events (snd (after_tasks env (pl, pb))) pb'"
    "starts (new_events (snd (after_tasks env (pl, pb))) pb')
       = ran (map name (handlers pl)) (map (runs env (pl, pb)) [0 ..< length (handlers pl)])"
    by (simp_all add: b)
  from new_events_trans[OF p(5) c(1)]
  have "new_events pb pb' = new_events pb (snd (after_tasks env (pl, pb)))
                             @ new_events (snd (after_tasks env (pl, pb))) pb'" by simp
  then show "starts (new_events pb pb')
        = map (\<lambda>t. (name t, False)) (tasks pl)
          @ ran (map name (handlers pl)) (map (runs env (pl, pb)) [0 ..< length (handlers pl)])"
    by (simp add: starts_append a c(2))
next
  fix k
  assume run: "run_play env (pl, pb) = (None, pl', pb')" and k: "k < length (handlers pl)"
  note t = reached_turn[OF run k]
  obtain plk pbk where rk: "reached env (pl, pb) k = (plk, pbk)" by (cases "reached env (pl, pb) k")
  obtain pln pbn where rn: "reached env (pl, pb) (Suc k) = (pln, pbn)"
    by (cases "reached env (pl, pb) (Suc k)")
  from t(1) have turn: "run_handlers env [k] (plk, pbk) = (None, pln, pbn)" by (simp add: rk rn)
  note h = handler_turn(1,2)[OF turn]
  from t(3) have nm: "name (handlers plk ! k) = name (handlers pl ! k)" by (simp add: rk)
  show "name (handlers (fst (reached env (pl, pb) k)) ! k) = name (handlers pl ! k)" by (rule t(3))
  show "run_handlers env [k] (reached env (pl, pb) k) = (None, reached env (pl, pb) (Suc k))"
    by (rule t(1))
  {
    assume "\<not> runs env (pl, pb) k"
    then have "notified_by (handlers plk ! k) = []" by (simp add: runs_def rk)
    with h(1) show "reached env (pl, pb) (Suc k) = reached env (pl, pb) k" by (simp add: rk rn)
  }
  {
    assume "runs env (pl, pb) k"
    then have n: "notified_by (handlers plk ! k) \<noteq> []" by (simp add: runs_def rk)
    from h(2) n nm
    show "hd (new_events (snd (reached env (pl, pb) k)) (snd (reached env (pl, pb) (Suc k))))
                = On_task_start (name (handlers pl ! k)) True"
      and "length (calls (new_events (snd (reached env (pl, pb) k))
                                         (snd (reached env (pl, pb) (Suc k))))) = 1"
      and "list_all (\<lambda>c. set (dispatch_set env c)
                                \<subseteq> set (notified_by (handlers (fst (reached env (pl, pb) k)) ! k))
                            \<and> tl (restrictions (rc_inventory c))
                                = notified_by (handlers (fst (reached env (pl, pb) k)) ! k)
                                  # restrictions (inventory (snd (reached env (pl, pb) k))))
                        (calls (new_events (snd (reached env (pl, pb) k))
                                           (snd (reached env (pl, pb) (Suc k)))))"
      and "inventory (snd (reached env (pl, pb) (Suc k))) = inventory (snd (reached env (pl, pb) k))"
      by (simp_all add: rk rn)
  }
next
  assume "notified_by (handlers ql ! i) = []"
  then show "run_handlers env (i # js) (ql, qb) = run_handlers env js (ql, qb)" by simp
next
  let ?h = "handlers ql ! i"
  let ?qb0 = "qb\<lparr>inventory := restrict_to (notified_by ?h) (inventory qb)\<rparr>"
  assume a: "notified_by ?h \<noteq> [] \<and> run_task env ?h True (ql, ?qb0) = (r, ql', qb')"
  then have t: "run_task env ?h True (ql, ?qb0) = (r, ql', qb')" and n: "notified_by ?h \<noteq> []"
    by simp_all
  have e0: "new_events ?qb0 qb' = new_events qb qb'" by (simp add: new_events_def)
  note s = run_task_starts(3,4)[OF t, unfolded e0]
  show "hd (new_events qb qb') = On_task_start (name ?h) True" by (rule s(1))
  show "length (calls (new_events qb qb')) = 1" by (simp add: s(2))
  show "list_all (\<lambda>c. set (dispatch_set env c) \<subseteq> set (notified_by ?h)) (calls (new_events qb qb'))"
    by (simp add: s(2) handler_dispatch)
  from run_task_step(1)[OF t]
  show i: "inventory qb' = restrict_to (notified_by ?h) (inventory qb)" by simp
  show "run_handlers env (i # js) (ql, qb)
             = (if r = None then run_handlers env js (ql', qb'\<lparr>inventory := inventory qb\<rparr>)
                else (r, ql', qb'))"
    using t n by (cases r) (simp_all add: Let_def i lift_restrict)
qed

theorem handlers_after_tasks_witness:
  "fst (run_play scripted (p_deploy, fresh)) = None
   \<and> runs scripted (p_deploy, fresh) 0
   \<and> starts (new_events fresh (snd (snd (run_play scripted (p_deploy, fresh)))))
       = [(''deploy'', False), (''touch'', False), (''restart'', True)]
   \<and> notified_by (handlers (fst (reached scripted (p_deploy, fresh) 0)) ! 0) = [''h1'']
   \<and> list_all (\<lambda>c. set (dispatch_set scripted c) \<subseteq> set [''h1''])
                (calls (new_events (snd (reached scripted (p_deploy, fresh) 0))
                                   (snd (reached scripted (p_deploy, fresh) (Suc 0)))))
   \<and> inventory (snd (reached scripted (p_deploy, fresh) (Suc 0)))
       = inventory (snd (reached scripted (p_deploy, fresh) 0))
   \<and> fst (run_play scripted (p_quiet, fresh)) = None
   \<and> \<not> runs scripted (p_quiet, fresh) 0
   \<and> starts (new_events fresh (snd (snd (run_play scripted (p_quiet, fresh)))))
       = [(''touch'', False)]
   \<and> reached scripted (p_quiet, fresh) (Suc 0) = reached scripted (p_quiet, fresh) 0
   \<and> run_handlers scripted [0] (p_deploy, fresh) = (None, p_deploy, fresh)
   \<and> inventory (snd (snd (run_task scripted (handlers p_notified ! 0) True
          (p_notified, fresh\<lparr>inventory := restrict_to [''h1''] (inventory fresh)\<rparr>))))
       = restrict_to [''h1''] (inventory fresh)"
proof -
  let ?a = "run_play scripted (p_deploy, fresh)"
  have n: "fst ?a = None" by code_simp
  have a: "?a = (None, fst (snd ?a), snd (snd ?a))" unfolding n[symmetric] by simp
  have th: "tasks p_deploy = [t_change, t_touch]" "map name (handlers p_deploy) = [''restart'']"
    "length (handlers p_deploy) = Suc 0" "name t_change = ''deploy''" "name t_touch = ''touch''"
    "name (handlers p_deploy ! 0) = ''restart''"
    by code_simp+
  have ru: "runs scripted (p_deploy, fresh) 0" by code_simp
  have nb: "notified_by (handlers (fst (reached scripted (p_deploy, fresh) 0)) ! 0) = [''h1'']"
    by code_simp
  note T1 = handlers_after_tasks[where env = scripted and pl = p_deploy and pb = fresh
      and pl' = "fst (snd ?a)" and pb' = "snd (snd ?a)", THEN conjunct1, THEN mp, OF a]
  from T1 have 1: "starts (new_events fresh (snd (snd ?a)))
       = [(''deploy'', False), (''touch'', False), (''restart'', True)]"
    by (simp add: th ru ran_def)
  from T1 have "\<forall>k<length (handlers p_deploy).
      runs scripted (p_deploy, fresh) k \<longrightarrow>
        list_all (\<lambda>c. set (dispatch_set scripted c)
                                \<subseteq> set (notified_by (handlers (fst (reached scripted (p_deploy, fresh) k)) ! k))
                            \<and> tl (restrictions (rc_inventory c))
                                = notified_by (handlers (fst (reached scripted (p_deploy, fresh) k)) ! k)
                                  # restrictions (inventory (snd (reached scripted (p_deploy, fresh) k))))
                        (calls (new_events (snd (reached scripted (p_deploy, fresh) k))
                                           (snd (reached scripted (p_deploy, fresh) (Suc k)))))
        \<and> inventory (snd (reached scripted (p_deploy, fresh) (Suc k)))
                = inventory (snd (reached scripted (p_deploy, fresh) k))"
    by blast
  then have k0: "list_all (\<lambda>c. set (dispatch_set scripted c) \<subseteq> set [''h1'']
                            \<and> tl (restrictions (rc_inventory c))
                                = [''h1''] # restrictions (inventory (snd (reached scripted (p_deploy, fresh) 0))))
                        (calls (new_events (snd (reached scripted (p_deploy, fresh) 0))
                                           (snd (reached scripted (p_deploy, fresh) (Suc 0)))))"
    and 3: "inventory (snd (reached scripted (p_deploy, fresh) (Suc 0)))
                = inventory (snd (reached scripted (p_deploy, fresh) 0))"
    using ru th(3) unfolding nb[symmetric] by auto
  from k0 have 2: "list_all (\<lambda>c. set (dispatch_set scripted c) \<subseteq> set [''h1''])
                (calls (new_events (snd (reached scripted (p_deploy, fresh) 0))
                                   (snd (reached scripted (p_deploy, fresh) (Suc 0)))))"
    by (simp add: list_all_iff)
  let ?q = "run_play scripted (p_quiet, fresh)"
  have qn: "fst ?q = None" by code_simp
  have q: "?q = (None, fst (snd ?q), snd (snd ?q))" unfolding qn[symmetric] by simp
  have qh: "tasks p_quiet = [t_touch]" "map name (handlers p_quiet) = [''restart'']"
    "length (handlers p_quiet) = Suc 0"
    by code_simp+
  have qr: "\<not> runs scripted (p_quiet, fresh) 0" by code_simp
  note T2 = handlers_after_tasks[where env = scripted and pl = p_quiet and pb = fresh
      and pl' = "fst (snd ?q)" and pb' = "snd (snd ?q)", THEN conjunct1, THEN mp, OF q]
  from T2 have 4: "starts (new_events fresh (snd (snd ?q))) = [(''touch'', False)]"
    by (simp add: qh qr th(5) ran_def)
  from T2 have "\<forall>k<length (handlers p_quiet). \<not> runs scripted (p_quiet, fresh) k \<longrightarrow>
      reached scripted (p_quiet, fresh) (Suc k) = reached scripted (p_quiet, fresh) k"
    by blast
  with qr qh(3) have 5: "reached scripted (p_quiet, fresh) (Suc 0) = reached scripted (p_quiet, fresh) 0"
    by auto
  have e: "notified_by (handlers p_deploy ! 0) = []" by code_simp
  note T3 = handlers_after_tasks[where env = scripted and ql = p_deploy and i = 0 and js = "[]"
      and qb = fresh, THEN conjunct2, THEN conjunct1, THEN mp, OF e]
  then have 6: "run_handlers scripted [0] (p_deploy, fresh) = (None, p_deploy, fresh)"
    by (simp only: run_handlers.simps(1))
  let ?h = "handlers p_notified ! 0"
  let ?qb0 = "fresh\<lparr>inventory := restrict_to [''h1''] (inventory fresh)\<rparr>"
  let ?t = "run_task scripted ?h True (p_notified, ?qb0)"
  have nb2: "notified_by ?h = [''h1'']" by code_simp
  have r: "fst ?t = None" by code_simp
  have t: "notified_by ?h \<noteq> []
           \<and> run_task scripted ?h True
               (p_notified, fresh\<lparr>inventory := restrict_to (notified_by ?h) (inventory fresh)\<rparr>)
             = (None, fst (snd ?t), snd (snd ?t))"
    unfolding nb2 r[symmetric] by simp
  note T4 = handlers_after_tasks[where env = scripted and ql = p_notified and i = 0 and js = "[]"
      and qb = fresh and r = None and ql' = "fst (snd ?t)" and qb' = "snd (snd ?t)",
      THEN conjunct2, THEN conjunct2, THEN mp, OF t]
  from T4 have 7: "inventory (snd (snd ?t)) = restrict_to [''h1''] (inventory fresh)"
    by (simp add: nb2)
  from n ru 1 nb 2 3 qn qr 4 5 6 7 show ?thesis by blast
qed

subsection \<open>The summary of a run\<close>

lemma notifies_defined_names:
  "map name hds' = map name hds \<Longrightarrow> notifies_defined env hds' t = notifies_defined env hds t"
proof -
  assume "map name hds' = map name hds"
  then have "name ` set hds' = name ` set hds" by (metis set_map)
  then have "\<And>v. (\<exists>x\<in>set hds'. name x = v) = (\<exists>x\<in>set hds. name x = v)"
    by (metis (no_types, opaque_lifting) imageE image_eqI)
  then show ?thesis by (simp add: notifies_defined_def list_ex_iff)
qed

lemma notifies_defined_strip:
  "x'\<lparr>notified_by := []\<rparr> = x\<lparr>notified_by := []\<rparr> \<Longrightarrow>
   notifies_defined env hds x' = notifies_defined env hds x"
proof -
  assume e: "x'\<lparr>notified_by := []\<rparr> = x\<lparr>notified_by := []\<rparr>"
  have "notify x' = notify (x'\<lparr>notified_by := []\<rparr>)"
    "module_vars x' = module_vars (x'\<lparr>notified_by := []\<rparr>)" by simp_all
  then have "notify x' = notify x" "module_vars x' = module_vars x"
    unfolding e by simp_all
  then show ?thesis by (simp add: notifies_defined_def)
qed

lemma notifies_defined_same_play:
  "same_play pl pl' \<Longrightarrow>
   notifies_defined env (handlers pl') t = notifies_defined env (handlers pl) t"
  by (rule notifies_defined_names) (rule same_play_names)

lemma play_configured_same_play:
  assumes "same_play pl pl'" and "play_configured env pl"
  shows "play_configured env pl'"
proof -
  note r = notifies_defined_same_play[OF assms(1)]
  from assms(2) have t: "list_all (notifies_defined env (handlers pl)) (tasks pl)"
    and h: "list_all (notifies_defined env (handlers pl)) (handlers pl)"
    by (simp_all add: play_configured_def)
  have "list_all (notifies_defined env (handlers pl')) (tasks pl')"
    using t by (simp add: same_play_tasks[OF assms(1)] r list_all_iff)
  moreover have "list_all (notifies_defined env (handlers pl')) (handlers pl')"
    unfolding list_all_length
  proof (intro allI impI)
    fix i assume "i < length (handlers pl')"
    then have i: "i < length (handlers pl)" by (simp add: same_play_length[OF assms(1)])
    with h have "notifies_defined env (handlers pl) (handlers pl ! i)" by (simp add: list_all_length)
    with notifies_defined_strip[OF same_play_handler[OF assms(1) i]]
    show "notifies_defined env (handlers pl') (handlers pl' ! i)" by (simp add: r)
  qed
  ultimately show ?thesis by (simp add: play_configured_def)
qed

lemma notify_hosts_defined:
  "notifies_defined env (handlers pl) t \<Longrightarrow> fst (notify_hosts env t cs (pl, pb)) = None"
proof (induction cs arbitrary: pl pb)
  case Nil
  then show ?case by simp
next
  case (Cons hr cs)
  obtain h x where hr: "hr = (h, x)" by (cases hr)
  show ?case
  proof (cases "truthy (case map_of x ''changed'' of None \<Rightarrow> JBool False | Some v \<Rightarrow> v)")
    case False
    with Cons.IH[OF Cons.prems] show ?thesis by (simp add: hr)
  next
    case True
    obtain r1 pl1 pb1 where n: "notify_names env t h (notify t) (pl, pb) = (r1, pl1, pb1)"
      by (metis prod_cases3)
    from Cons.prems have "fst (notify_names env t h (notify t) (pl, pb)) = None"
      by (intro notify_names_ok) (simp add: notifies_defined_def)
    with n have r1: "r1 = None" by simp
    from notify_names_step[OF n] have "same_play pl pl1" by (simp add: notify_step_def)
    with Cons.prems have "notifies_defined env (handlers pl1) t"
      by (simp add: notifies_defined_same_play)
    from Cons.IH[OF this] True n r1 show ?thesis by (simp add: hr)
  qed
qed

lemma same_play_hosts: "same_play pl pl' \<Longrightarrow> hosts pl' = hosts pl"
  unfolding same_play_def by (metis play.select_convs(2) play.surjective play.update_convs(6))

lemma merge_host_facts_dict:
  "dict_entries c \<Longrightarrow> dict_entries (snd (merge_host_facts h kvs c))"
proof (cases "map_of c h")
  case None
  assume "dict_entries c"
  with None show ?thesis by (simp add: merge_host_facts_absent)
next
  case (Some v)
  assume "dict_entries c"
  from merge_host_facts_present[OF this, of h kvs] Some show ?thesis by simp
qed

lemma merge_facts_dict:
  "dict_facts cs \<Longrightarrow> dict_entries c \<Longrightarrow> dict_entries (snd (merge_facts cs c))"
proof (induction cs arbitrary: c)
  case Nil
  then show ?case by simp
next
  case (Cons hr cs)
  obtain h r where hr: "hr = (h, r)" by (cases hr)
  from Cons.prems(1) have rest: "dict_facts cs" by (simp add: dict_facts_def)
  show ?case
  proof (cases "map_of r ''ansible_facts''")
    case None
    with Cons.IH[OF rest Cons.prems(2)] show ?thesis by (simp add: hr)
  next
    case (Some v)
    with Cons.prems(1) obtain kvs where v: "v = JDict kvs"
      by (auto simp: dict_facts_def hr split: jval.splits)
    obtain e c' where m: "merge_host_facts h kvs c = (e, c')"
      by (cases "merge_host_facts h kvs c")
    from merge_host_facts_dict[OF Cons.prems(2), of h kvs] m have d: "dict_entries c'" by simp
    show ?thesis
    proof (cases e)
      case None
      with Cons.IH[OF rest d] m Some v show ?thesis by (simp add: hr)
    next
      case (Some x)
      with d m \<open>map_of r ''ansible_facts'' = Some v\<close> v show ?thesis by (simp add: hr)
    qed
  qed
qed

lemma merge_facts_safe:
  assumes "dict_facts cs" and "dict_entries c"
    and "\<And>h r. (h, r) \<in> set cs \<Longrightarrow> map_of r ''ansible_facts'' \<noteq> None \<Longrightarrow> map_of c h \<noteq> None"
  shows "fst (merge_facts cs c) = None"
proof -
  have "\<not> (\<exists>x\<in>set cs. needs_entry c x)"
  proof
    assume "\<exists>x\<in>set cs. needs_entry c x"
    then obtain h r where m: "(h, r) \<in> set cs" and n: "needs_entry c (h, r)" by auto
    from n have "map_of r ''ansible_facts'' \<noteq> None" "map_of c h = None"
      by (auto simp: needs_entry_def split: option.splits jval.splits)
    with assms(3)[OF m] show False by simp
  qed
  then have "find (needs_entry c) cs = None" by (simp add: find_None_iff)
  with merge_facts_find[OF assms(1,2)] show ?thesis by simp
qed

lemma load_facts_dict:
  "dict_facts cs \<Longrightarrow> dict_entries c \<Longrightarrow> dict_entries (load_facts cs c)"
proof (induction cs arbitrary: c)
  case Nil
  then show ?case by simp
next
  case (Cons hr cs)
  obtain h r where hr: "hr = (h, r)" by (cases hr)
  from Cons.prems(1) have rest: "dict_facts cs" by (simp add: dict_facts_def)
  show ?case
  proof (cases "map_of r ''ansible_facts''")
    case None
    with Cons.IH[OF rest Cons.prems(2)] show ?thesis by (simp add: hr)
  next
    case (Some v)
    with Cons.prems(1) obtain kvs where v: "v = JDict kvs"
      by (auto simp: dict_facts_def hr split: jval.splits)
    from Cons.IH[OF rest dict_entries_update[OF Cons.prems(2)]] Some v show ?thesis
      by (simp add: hr)
  qed
qed

lemma load_facts_keeps:
  "map_of c h \<noteq> None \<Longrightarrow> map_of (load_facts cs c) h \<noteq> None"
proof (induction cs arbitrary: c)
  case Nil
  then show ?case by simp
next
  case (Cons hr cs)
  obtain h0 r0 where hr: "hr = (h0, r0)" by (cases hr)
  show ?case
  proof (cases "map_of r0 ''ansible_facts''")
    case None
    with Cons.IH[OF Cons.prems] show ?thesis by (simp add: hr)
  next
    case (Some f)
    from Cons.prems have "map_of (AList.update h0 f c) h \<noteq> None" by (simp add: update_conv')
    from Cons.IH[OF this] Some show ?thesis by (simp add: hr)
  qed
qed

lemma load_facts_covers:
  "(h, r) \<in> set cs \<Longrightarrow> map_of r ''ansible_facts'' \<noteq> None \<Longrightarrow> map_of (load_facts cs c) h \<noteq> None"
proof (induction cs arbitrary: c)
  case Nil
  then show ?case by simp
next
  case (Cons hr cs)
  obtain h0 r0 where hr: "hr = (h0, r0)" by (cases hr)
  show ?case
  proof (cases "(h, r) = (h0, r0)")
    case True
    with Cons.prems(2) obtain f where f: "map_of r0 ''ansible_facts'' = Some f" by auto
    have "map_of (AList.update h0 f c) h \<noteq> None" using True by (simp add: update_conv')
    from load_facts_keeps[OF this] f show ?thesis by (simp add: hr)
  next
    case False
    with Cons.prems(1) have "(h, r) \<in> set cs" by (auto simp: hr)
    from Cons.IH[OF this Cons.prems(2)] show ?thesis
      by (cases "map_of r0 ''ansible_facts''") (simp_all add: hr)
  qed
qed

lemma last_async_append: "last_async (xs @ ys) acc = last_async ys (last_async xs acc)"
  by (induction xs acc rule: last_async.induct) simp_all

lemma update_mem:
  "(h, r) \<in> set (AList.update k v c) \<Longrightarrow> (h = k \<and> r = v) \<or> (h, r) \<in> set c"
  by (induction c) (auto split: if_splits)

lemma fold_update_mem:
  "(h, r) \<in> set (fold (\<lambda>h c. AList.update h v c) hs c0) \<Longrightarrow> r = v \<or> (h, r) \<in> set c0"
proof (induction hs arbitrary: c0)
  case Nil
  then show ?case by simp
next
  case (Cons k hs)
  from Cons.IH[of "AList.update k v c0"] Cons.prems
  have "r = v \<or> (h, r) \<in> set (AList.update k v c0)" by simp
  with update_mem[of h r k v c0] show ?case by blast
qed

lemma list_hosts_restrict_subset:
  "h \<in> set (list_hosts pm (restrict_to hs iv) pat) \<Longrightarrow> h \<in> set (list_hosts pm iv pat)"
  by (simp add: list_hosts_def restrict_to_def)

lemma list_hosts_restrict_mem:
  "h \<in> set (list_hosts pm iv pat) \<Longrightarrow> h \<in> set hs \<Longrightarrow>
   h \<in> set (list_hosts pm (restrict_to hs iv) pat)"
  by (simp add: list_hosts_def restrict_to_def)

lemma task_results_sound:
  assumes rc: "runner_contract env"
  shows "dict_facts (contacted (task_results env pl t pb))"
    and "(h, r) \<in> set (contacted (task_results env pl t pb)) \<Longrightarrow>
         map_of r ''ansible_facts'' \<noteq> None \<Longrightarrow>
         h \<in> set (dispatch_set env (task_call env pl t pb))"
proof -
  let ?c = "task_call env pl t pb"
  from rc have run: "\<And>tr c. set (map fst (contacted (runner_run env tr c))) \<subseteq> set (dispatch_set env c)"
      "\<And>tr c. dict_facts (contacted (runner_run env tr c))"
    and async: "\<And>tr c secs. set (map fst (contacted (runner_run_async env tr c secs)))
                   \<subseteq> set (dispatch_set env c)"
      "\<And>tr c secs. dict_facts (contacted (runner_run_async env tr c secs))"
    and poll: "\<And>tr secs interval. dict_facts (contacted (fst (poller_wait env tr secs interval)))"
      "\<And>tr secs interval c. last_async tr None = Some c \<Longrightarrow>
          set (map fst (contacted (fst (poller_wait env tr secs interval)))) \<subseteq> set (dispatch_set env c)"
    unfolding runner_contract_def by blast+
  let ?tr = "trace pb @ launch_events env pl t pb"
  let ?w = "poller_wait env ?tr (async_seconds t) (async_poll_interval t)"
  have la: "last_async ?tr None = Some ?c"
    by (simp add: last_async_append launch_events_def)
  have nf: "map_of timed_out ''ansible_facts'' = None" by (simp add: timed_out_def)
  have polled: "contacted (task_results env pl t pb)
                  = fold (\<lambda>h c. AList.update h timed_out c) (snd ?w) (contacted (fst ?w))"
    if "async_seconds t \<noteq> 0" "async_poll_interval t > 0"
    using that by (simp add: task_results_def split: prod.splits)
  show "dict_facts (contacted (task_results env pl t pb))"
  proof (cases "async_seconds t = 0")
    case True
    then show ?thesis by (simp add: task_results_def run(2))
  next
    case False
    show ?thesis
    proof (cases "async_poll_interval t > 0")
      case False
      with \<open>async_seconds t \<noteq> 0\<close> show ?thesis by (simp add: task_results_def async(2))
    next
      case True
      have "\<And>hr. hr \<in> set (fold (\<lambda>h c. AList.update h timed_out c) (snd ?w) (contacted (fst ?w)))
              \<Longrightarrow> (case map_of (snd hr) ''ansible_facts'' of
                      None \<Rightarrow> True | Some (JDict kvs) \<Rightarrow> True | Some _ \<Rightarrow> False)"
      proof -
        fix hr assume m: "hr \<in> set (fold (\<lambda>h c. AList.update h timed_out c) (snd ?w) (contacted (fst ?w)))"
        obtain h0 r0 where hr: "hr = (h0, r0)" by (cases hr)
        from fold_update_mem[of h0 r0 timed_out "snd ?w" "contacted (fst ?w)"] m
        have "r0 = timed_out \<or> (h0, r0) \<in> set (contacted (fst ?w))" by (simp add: hr)
        then show "case map_of (snd hr) ''ansible_facts'' of
                      None \<Rightarrow> True | Some (JDict kvs) \<Rightarrow> True | Some _ \<Rightarrow> False"
        proof
          assume "r0 = timed_out"
          then show ?thesis by (simp add: hr nf)
        next
          assume "(h0, r0) \<in> set (contacted (fst ?w))"
          with poll(1)[of ?tr "async_seconds t" "async_poll_interval t"]
          show ?thesis by (auto simp: dict_facts_def list_all_iff hr)
        qed
      qed
      then show ?thesis
        unfolding polled[OF \<open>async_seconds t \<noteq> 0\<close> True] dict_facts_def list_all_iff by blast
    qed
  qed
  assume m: "(h, r) \<in> set (contacted (task_results env pl t pb))"
    and f: "map_of r ''ansible_facts'' \<noteq> None"
  show "h \<in> set (dispatch_set env ?c)"
  proof (cases "async_seconds t = 0")
    case True
    with m have "(h, r) \<in> set (contacted (runner_run env (trace pb) ?c))"
      by (simp add: task_results_def)
    then have "h \<in> set (map fst (contacted (runner_run env (trace pb) ?c)))" by force
    with run(1) show ?thesis by blast
  next
    case False
    show ?thesis
    proof (cases "async_poll_interval t > 0")
      case False
      with \<open>async_seconds t \<noteq> 0\<close> m
      have "(h, r) \<in> set (contacted (runner_run_async env (trace pb) ?c (async_seconds t)))"
        by (simp add: task_results_def)
      then have "h \<in> set (map fst (contacted (runner_run_async env (trace pb) ?c (async_seconds t))))"
        by force
      with async(1) show ?thesis by blast
    next
      case True
      from m fold_update_mem[of h r timed_out "snd ?w" "contacted (fst ?w)"]
      have "r = timed_out \<or> (h, r) \<in> set (contacted (fst ?w))"
        by (simp add: polled[OF \<open>async_seconds t \<noteq> 0\<close> True])
      with f nf have "(h, r) \<in> set (contacted (fst ?w))" by auto
      then have "h \<in> set (map fst (contacted (fst ?w)))" by force
      with poll(2)[OF la] show ?thesis by blast
    qed
  qed
qed

lemma covered_step:
  assumes sc: "stats_contract env" and cov: "covered env pl pb"
    and "hosts pl' = hosts pl" and "inventory pb' = inventory pb"
    and tr: "trace pb' = trace pb @ evs"
    and keys: "map fst (SETUP_CACHE pb') = map fst (SETUP_CACHE pb)"
    and d: "dict_entries (SETUP_CACHE pb')"
  shows "covered env pl' pb'"
proof -
  from sc have mono: "\<forall>tr e h. excluded env tr h \<longrightarrow> excluded env (tr @ [e]) h"
    by (simp add: stats_contract_def)
  have "excluded env (trace pb') h \<or> map_of (SETUP_CACHE pb') h \<noteq> None"
    if "h \<in> set (list_hosts (pattern_match env) (inventory pb) (Some (hosts pl)))" for h
  proof -
    from cov that have "excluded env (trace pb) h \<or> map_of (SETUP_CACHE pb) h \<noteq> None"
      by (simp add: covered_def list_all_iff)
    then show ?thesis
    proof
      assume "excluded env (trace pb) h"
      from excluded_grows[OF mono this, of evs] show ?thesis by (simp add: tr)
    next
      assume "map_of (SETUP_CACHE pb) h \<noteq> None"
      with absent_keys[OF keys, of h] show ?thesis by simp
    qed
  qed
  with d assms(3,4) show ?thesis by (simp add: covered_def list_all_iff)
qed

lemma covered_restrict:
  "covered env pl pb \<Longrightarrow> covered env pl (pb\<lparr>inventory := restrict_to hs (inventory pb)\<rparr>)"
  by (auto simp: covered_def list_all_iff dest: list_hosts_restrict_subset)

lemma run_task_safe:
  assumes rc: "runner_contract env" and sc: "stats_contract env"
    and nd: "notifies_defined env (handlers pl) t"
    and cov: "covered env pl pb"
    and run: "run_task env t b (pl, pb) = (r, pl', pb')"
  shows "r = None" and "covered env pl' pb'"
    and "map fst (SETUP_CACHE pb') = map fst (SETUP_CACHE pb)"
    and "dict_entries (SETUP_CACHE pb')"
proof -
  let ?pb1 = "emit (On_task_start (name t) b) pb"
  let ?res = "task_results env pl t ?pb1"
  from sc have mono: "\<forall>tr e h. excluded env tr h \<longrightarrow> excluded env (tr @ [e]) h"
    by (simp add: stats_contract_def)
  from cov have dc: "dict_entries (SETUP_CACHE pb)" by (simp add: covered_def)
  note df = task_results_sound(1)[OF rc, of pl t ?pb1]
  have entry: "map_of (SETUP_CACHE pb) h \<noteq> None"
    if m: "(h, x) \<in> set (contacted ?res)" and f: "map_of x ''ansible_facts'' \<noteq> None" for h x
  proof -
    from task_results_sound(2)[OF rc m f]
    have d: "h \<in> set (dispatch_set env (task_call env pl t ?pb1))" .
    from dispatch_task_call[OF d] have "\<not> excluded env (trace pb @ [On_task_start (name t) b]) h"
      by (simp add: emit_def)
    with mono have ne: "\<not> excluded env (trace pb) h" by blast
    from d have "h \<in> set (list_hosts (pattern_match env)
                    (restrict_to (working_set env ?pb1 None) (inventory pb)) (Some (hosts pl)))"
      by (simp add: dispatch_set_def task_call_def emit_def)
    then have "h \<in> set (list_hosts (pattern_match env) (inventory pb) (Some (hosts pl)))"
      by (rule list_hosts_restrict_subset)
    with cov ne show ?thesis by (auto simp: covered_def list_all_iff)
  qed
  have ok: "fst (merge_facts (contacted ?res) (SETUP_CACHE pb)) = None"
    using df dc by (rule merge_facts_safe) (rule entry)
  then obtain c where m: "merge_facts (contacted ?res) (SETUP_CACHE pb) = (None, c)"
    by (cases "merge_facts (contacted ?res) (SETUP_CACHE pb)") simp
  show r: "r = None"
  proof (cases "notify t = []")
    case True
    with m run show ?thesis by (simp add: run_task_eq Let_def)
  next
    case False
    let ?st = "(pl, emit (Stats_compute ?res False)
                 (?pb1\<lparr>trace := trace ?pb1 @ task_events env pl t ?pb1, SETUP_CACHE := c\<rparr>))"
    from notify_hosts_defined[OF nd, of "contacted ?res"]
    have "fst (notify_hosts env t (contacted ?res) ?st) = None" .
    moreover from False m run have "notify_hosts env t (contacted ?res) ?st = (r, pl', pb')"
      by (simp add: run_task_eq Let_def)
    ultimately show ?thesis by simp
  qed
  from run_task_cache[of env t b pl pb] run m have c: "SETUP_CACHE pb' = c" by simp
  from merge_facts_find[OF df dc] m c
  show keys: "map fst (SETUP_CACHE pb') = map fst (SETUP_CACHE pb)" by simp
  from merge_facts_dict[OF df dc] m c show d: "dict_entries (SETUP_CACHE pb')" by simp
  from run_task_step(3)[OF run] obtain evs where "trace pb' = trace pb @ evs" by blast
  from covered_step[OF sc cov same_play_hosts[OF run_task_step(2)[OF run]]
      run_task_step(1)[OF run] this keys d]
  show "covered env pl' pb'" .
qed

lemma run_tasks_safe:
  assumes rc: "runner_contract env" and sc: "stats_contract env"
  shows "play_configured env pl \<Longrightarrow> covered env pl pb \<Longrightarrow> set ts \<subseteq> set (tasks pl) \<Longrightarrow>
         run_tasks env ts (pl, pb) = (r, pl', pb') \<Longrightarrow> r = None \<and> covered env pl' pb'"
proof (induction ts arbitrary: pl pb)
  case Nil
  then show ?case by simp
next
  case (Cons t ts)
  obtain r1 pl1 pb1 where t: "run_task env t False (pl, pb) = (r1, pl1, pb1)"
    by (metis prod_cases3)
  from Cons.prems(1,3) have nd: "notifies_defined env (handlers pl) t"
    by (simp add: play_configured_def list_all_iff)
  note s = run_task_safe(1,2)[OF rc sc nd Cons.prems(2) t]
  note sp = run_task_step(2)[OF t]
  from s(1) Cons.prems(4) t have rest: "run_tasks env ts (pl1, pb1) = (r, pl', pb')" by simp
  from Cons.prems(3) have "set ts \<subseteq> set (tasks pl1)" by (simp add: same_play_tasks[OF sp])
  from Cons.IH[OF play_configured_same_play[OF sp Cons.prems(1)] s(2) this rest]
  show ?case .
qed

lemma run_handlers_safe:
  assumes rc: "runner_contract env" and sc: "stats_contract env"
  shows "play_configured env pl \<Longrightarrow> covered env pl pb \<Longrightarrow>
         list_all (\<lambda>i. i < length (handlers pl)) js \<Longrightarrow>
         fst (run_handlers env js (pl, pb)) = None"
proof (induction js arbitrary: pl pb)
  case Nil
  then show ?case by simp
next
  case (Cons i js)
  let ?h = "handlers pl ! i"
  show ?case
  proof (cases "notified_by ?h = []")
    case True
    with Cons.IH[OF Cons.prems(1,2)] Cons.prems(3) show ?thesis by (simp add: Let_def)
  next
    case False
    let ?pb0 = "pb\<lparr>inventory := restrict_to (notified_by ?h) (inventory pb)\<rparr>"
    obtain r1 pl1 pb1 where t: "run_task env ?h True (pl, ?pb0) = (r1, pl1, pb1)"
      by (metis prod_cases3)
    from Cons.prems(1,3) have nd: "notifies_defined env (handlers pl) ?h"
      by (simp add: play_configured_def list_all_iff)
    note s = run_task_safe[OF rc sc nd covered_restrict[OF Cons.prems(2)] t]
    note sp = run_task_step(2)[OF t]
    let ?pb2 = "pb1\<lparr>inventory := lift_restriction (inventory pb1)\<rparr>"
    from run_task_step(3)[OF t] obtain evs where "trace pb1 = trace pb @ evs" by auto
    then have tr: "trace ?pb2 = trace pb @ evs" by simp
    have iv: "inventory ?pb2 = inventory pb"
      using run_task_step(1)[OF t] by (simp add: lift_restrict)
    have "covered env pl1 ?pb2"
      using covered_step[OF sc Cons.prems(2) same_play_hosts[OF sp] iv tr] s(3,4) by simp
    moreover from Cons.prems(3) have "list_all (\<lambda>i. i < length (handlers pl1)) js"
      by (simp add: same_play_length[OF sp])
    ultimately have "fst (run_handlers env js (pl1, ?pb2)) = None"
      using Cons.IH[OF play_configured_same_play[OF sp Cons.prems(1)]] by blast
    with False t s(1) show ?thesis by (simp add: Let_def)
  qed
qed

lemma primary_covers:
  assumes rc: "runner_contract env" and sc: "stats_contract env"
    and empty: "SETUP_CACHE pb = []"
    and step: "do_setup_step env None (pl, pb) = (res, pl1, pb1)"
  shows "covered env pl1 pb1"
proof -
  let ?c = "setup_call env None pl pb"
  let ?tr0 = "trace pb @ [On_setup_primary]"
  let ?res = "runner_run env ?tr0 ?c"
  from sc have mono: "\<forall>tr e h. excluded env tr h \<longrightarrow> excluded env (tr @ [e]) h"
    and fl: "\<And>tr res setup h r. (h, r) \<in> set (contacted res) \<Longrightarrow> reports ''failed'' r \<Longrightarrow>
                   stats_failures env (tr @ [Stats_compute res setup]) h"
    and dk: "\<And>tr res setup h r. (h, r) \<in> set (dark res) \<Longrightarrow>
                   stats_dark env (tr @ [Stats_compute res setup]) h"
    unfolding stats_contract_def by blast+
  from rc have df: "dict_facts (contacted ?res)"
    and su: "\<And>h. h \<in> set (dispatch_set env ?c) \<Longrightarrow>
              h \<in> set (map fst (dark ?res))
              \<or> (\<exists>r. (h, r) \<in> set (contacted ?res)
                     \<and> (reports ''failed'' r \<or> map_of r ''ansible_facts'' \<noteq> None))"
  proof -
    from rc show "dict_facts (contacted ?res)" unfolding runner_contract_def by blast
    have m: "rc_module_name ?c = ''setup''" by (simp add: setup_call_def)
    from rc have "\<forall>tr c. rc_module_name c = ''setup'' \<longrightarrow>
            (\<forall>h\<in>set (dispatch_set env c).
               h \<in> set (map fst (dark (runner_run env tr c)))
               \<or> (\<exists>r. (h, r) \<in> set (contacted (runner_run env tr c))
                      \<and> (reports ''failed'' r \<or> map_of r ''ansible_facts'' \<noteq> None)))"
      unfolding runner_contract_def by blast
    with m show "\<And>h. h \<in> set (dispatch_set env ?c) \<Longrightarrow>
              h \<in> set (map fst (dark ?res))
              \<or> (\<exists>r. (h, r) \<in> set (contacted ?res)
                     \<and> (reports ''failed'' r \<or> map_of r ''ansible_facts'' \<noteq> None))"
      by blast
  qed
  from step have pl1: "pl1 = pl"
    and cache: "SETUP_CACHE pb1 = load_facts (contacted ?res) []"
    and tr: "trace pb1 = (?tr0 @ [Runner_run ?c]) @ [Stats_compute ?res True]"
    and iv: "inventory pb1 = inventory pb"
    by (auto simp: do_setup_step_eq setup_play_def setup_results_def setup_prelude_def empty)
  have d: "dict_entries (SETUP_CACHE pb1)"
    unfolding cache by (rule load_facts_dict[OF df]) (simp add: dict_entries_def)
  have "excluded env (trace pb1) h \<or> map_of (SETUP_CACHE pb1) h \<noteq> None"
    if h: "h \<in> set (list_hosts (pattern_match env) (inventory pb) (Some (hosts pl)))" for h
  proof (cases "excluded env ?tr0 h")
    case True
    from excluded_grows[OF mono True, of "[Runner_run ?c, Stats_compute ?res True]"]
    show ?thesis by (simp add: tr)
  next
    case False
    with h have "h \<in> set (working_set env (pb\<lparr>trace := ?tr0\<rparr>) (Some (hosts pl)))"
      by (simp add: working_set_def excluded_def)
    with h have "h \<in> set (dispatch_set env ?c)"
      by (simp add: dispatch_set_def setup_call_def setup_prelude_def list_hosts_restrict_mem)
    from su[OF this] show ?thesis
    proof
      assume "h \<in> set (map fst (dark ?res))"
      then obtain r where "(h, r) \<in> set (dark ?res)" by auto
      from dk[OF this, of "?tr0 @ [Runner_run ?c]" True]
      show ?thesis by (simp add: tr excluded_def)
    next
      assume "\<exists>r. (h, r) \<in> set (contacted ?res)
                  \<and> (reports ''failed'' r \<or> map_of r ''ansible_facts'' \<noteq> None)"
      then obtain r where m: "(h, r) \<in> set (contacted ?res)"
        and c: "reports ''failed'' r \<or> map_of r ''ansible_facts'' \<noteq> None" by blast
      from c show ?thesis
      proof
        assume "reports ''failed'' r"
        from fl[OF m this, of "?tr0 @ [Runner_run ?c]" True]
        show ?thesis by (simp add: tr excluded_def)
      next
        assume "map_of r ''ansible_facts'' \<noteq> None"
        from load_facts_covers[OF m this, of "[]"] show ?thesis by (simp add: cache)
      qed
    qed
  qed
  with d show ?thesis by (simp add: covered_def list_all_iff pl1 iv)
qed

lemma secondary_covers:
  assumes sc: "stats_contract env" and cov: "covered env pl pb"
    and step: "do_setup_step env (Some fs) (pl, pb) = (res, pl1, pb1)"
  shows "covered env pl1 pb1"
proof -
  from step have h: "hosts pl1 = hosts pl"
    and c: "SETUP_CACHE pb1 = SETUP_CACHE pb"
    and tr: "trace pb1 = trace pb @ (setup_prelude env (Some fs) pl pb
                  @ [Runner_run (setup_call env (Some fs) pl pb),
                     Stats_compute (setup_results env (Some fs) pl pb) True])"
    by (auto simp: do_setup_step_eq setup_play_def)
  from cov have "dict_entries (SETUP_CACHE pb)" by (simp add: covered_def)
  with covered_step[OF sc cov h do_setup_step_inventory[OF step] tr] c show ?thesis by simp
qed

lemma after_setup_covered:
  assumes rc: "runner_contract env" and sc: "stats_contract env"
    and empty: "SETUP_CACHE pb = []"
    and st: "after_setup env (pl, pb) = (pl2, pb2)"
  shows "covered env pl2 pb2"
proof -
  let ?pb0 = "emit (On_play_start (play_name pl)) pb"
  obtain res1 pl1 pb1 where s1: "do_setup_step env None (pl, ?pb0) = (res1, pl1, pb1)"
    by (metis prod_cases3)
  have "SETUP_CACHE ?pb0 = []" by (simp add: emit_def empty)
  note c1 = primary_covers[OF rc sc this s1]
  show ?thesis
  proof (cases "vars_files pl1")
    case None
    with st s1 have "pl2 = pl1" "pb2 = pb1" by (simp_all add: after_setup_def)
    with c1 show ?thesis by simp
  next
    case (Some fs)
    show ?thesis
    proof (cases "length fs > 0")
      case False
      with Some st s1 have "pl2 = pl1" "pb2 = pb1" by (simp_all add: after_setup_def)
      with c1 show ?thesis by simp
    next
      case True
      obtain res2 pl2' pb2' where s2: "do_setup_step env (Some fs) (pl1, pb1) = (res2, pl2', pb2')"
        by (metis prod_cases3)
      with True Some st s1 have e: "pl2 = pl2'" "pb2 = pb2'" by (simp_all add: after_setup_def)
      from secondary_covers[OF sc c1 s2] show ?thesis by (simp add: e)
    qed
  qed
qed

lemma run_play_safe:
  assumes rc: "runner_contract env" and sc: "stats_contract env"
    and conf: "play_configured env pl" and empty: "SETUP_CACHE pb = []"
  shows "fst (run_play env (pl, pb)) = None"
proof -
  obtain pl2 pb2 where st2: "after_setup env (pl, pb) = (pl2, pb2)"
    by (cases "after_setup env (pl, pb)")
  note sh = after_setup_shape(3,4)[OF st2]
  from conf sh have c2: "play_configured env pl2" by (simp add: play_configured_def)
  note cov2 = after_setup_covered[OF rc sc empty st2]
  obtain r3 pl3 pb3 where t: "run_tasks env (tasks pl2) (pl2, pb2) = (r3, pl3, pb3)"
    by (metis prod_cases3)
  from run_tasks_safe[OF rc sc c2 cov2 _ t] have r3: "r3 = None" and cov3: "covered env pl3 pb3"
    by simp_all
  from play_configured_same_play[OF run_tasks_same_play[OF t] c2] have c3: "play_configured env pl3" .
  have "list_all (\<lambda>i. i < length (handlers pl3)) [0 ..< length (handlers pl3)]"
    by (simp add: list_all_iff)
  from run_handlers_safe[OF rc sc c3 cov3 this] t r3 st2 show ?thesis by (simp add: run_play_eq)
qed

lemma run_plays_safe:
  assumes rc: "runner_contract env" and sc: "stats_contract env"
  shows "list_all (play_configured env) ps \<Longrightarrow> fst (run_plays env ps pb) = None"
proof (induction ps arbitrary: pb)
  case Nil
  then show ?case by simp
next
  case (Cons p ps)
  from Cons.prems have "play_configured env p" by simp
  from run_play_safe[OF rc sc this, of "pb\<lparr>SETUP_CACHE := []\<rparr>"]
  obtain pl1 pb1 where "run_play env (p, pb\<lparr>SETUP_CACHE := []\<rparr>) = (None, pl1, pb1)"
    by (metis prod.collapse playbook.select_convs(1) playbook.update_convs(1) playbook.surjective)
  with Cons.IH[of pb1] Cons.prems show ?case by simp
qed

text \<open>
  Claim C8. When \<open>run\<close> returns, its result maps exactly the hosts of
  \<open>stats.processed\<close> to their \<open>stats.summarize\<close>, failed and unreachable hosts
  included. What the Runner reports for a host never makes \<open>run\<close> raise: whenever
  the Runner, the Poller and the Stats ledger keep their contracts and every notified
  handler name is defined in its play, \<open>run\<close> returns a summary, whichever hosts
  the results report as failed or dark, in a setup step or in a task, and whichever
  tasks return facts. A host that fails or cannot be reached in the primary setup step
  gets no cache entry; it is excluded from every later dispatch, and this is what
  keeps the fact merge of the tasks from indexing an entry that is missing.
\<close>

theorem run_returns_summary:
  "(run env plays pb = (Inr summary, pb') \<longrightarrow>
      (\<forall>h. map_of summary h =
             (if h \<in> set (stats_processed env (trace pb'))
              then Some (stats_summarize env (trace pb') h) else None)))
   \<and> (runner_contract env \<and> stats_contract env \<and> list_all (play_configured env) plays \<longrightarrow>
         (\<exists>s. fst (run env plays pb) = Inr s))"
proof (intro conjI impI)
  assume "run env plays pb = (Inr summary, pb')"
  then have "summary = summarize_all env (trace pb')"
    by (auto simp: run_def split: prod.splits option.splits)
  then show "\<forall>h. map_of summary h =
             (if h \<in> set (stats_processed env (trace pb'))
              then Some (stats_summarize env (trace pb') h) else None)"
    by (simp add: summarize_all_def fold_summary_lookup)
next
  assume "runner_contract env \<and> stats_contract env \<and> list_all (play_configured env) plays"
  then have "fst (run_plays env plays (emit On_start pb)) = None"
    by (simp add: run_plays_safe)
  then show "\<exists>s. fst (run env plays pb) = Inr s"
    by (cases "run_plays env plays (emit On_start pb)") (simp add: run_def)
qed

lemma rough_runner: "runner_contract rough"
  unfolding runner_contract_def
proof (intro conjI allI impI ballI)
  fix tr c
  show "set (map fst (contacted (runner_run rough tr c))) \<subseteq> set (dispatch_set rough c)"
    by (auto simp: rough_def scripted_def rough_run_def dispatch_set_def Let_def)
  show "dict_facts (contacted (runner_run rough tr c))"
    by (auto simp: rough_def scripted_def rough_run_def dict_facts_def list_all_iff Let_def)
next
  fix tr c secs
  show "set (map fst (contacted (runner_run_async rough tr c secs))) \<subseteq> set (dispatch_set rough c)"
    by (auto simp: rough_def scripted_def scripted_run_async_def dispatch_set_def)
  show "dict_facts (contacted (runner_run_async rough tr c secs))"
    by (auto simp: rough_def scripted_def scripted_run_async_def dict_facts_def list_all_iff)
next
  fix tr secs interval
  show "dict_facts (contacted (fst (poller_wait rough tr secs interval)))"
    by (simp add: rough_def dict_facts_def)
next
  fix tr secs interval c
  show "set (map fst (contacted (fst (poller_wait rough tr secs interval)))) \<subseteq> set (dispatch_set rough c)"
    by (simp add: rough_def)
next
  fix tr c h
  assume "rc_module_name c = ''setup''" and "h \<in> set (dispatch_set rough c)"
  then show "h \<in> set (map fst (dark (runner_run rough tr c)))
             \<or> (\<exists>r. (h, r) \<in> set (contacted (runner_run rough tr c))
                    \<and> (reports ''failed'' r \<or> map_of r ''ansible_facts'' \<noteq> None))"
  proof (intro disjI2)
    assume m: "rc_module_name c = ''setup''" and h: "h \<in> set (dispatch_set rough c)"
    let ?r = "if h = ''h3'' then [(''failed'', JInt 1)]
              else [(''ansible_facts'', JDict [(''os'', JStr ''linux'')])]"
    from m h have "(h, ?r) \<in> set (contacted (runner_run rough tr c))"
      by (auto simp: rough_def scripted_def rough_run_def dispatch_set_def Let_def)
    moreover have "reports ''failed'' ?r \<or> map_of ?r ''ansible_facts'' \<noteq> None"
      by (simp add: reports_def)
    ultimately show "\<exists>r. (h, r) \<in> set (contacted (runner_run rough tr c))
                    \<and> (reports ''failed'' r \<or> map_of r ''ansible_facts'' \<noteq> None)"
      by blast
  qed
qed

lemma rough_stats: "stats_contract rough"
  unfolding stats_contract_def
proof (intro conjI allI impI)
  fix tr e h
  assume "excluded rough tr h"
  then show "excluded rough (tr @ [e]) h"
    by (auto simp: excluded_def rough_def scripted_def ledger_failures_def ledger_dark_def folds_snoc)
next
  fix tr and res :: results and b h r
  assume "(h, r) \<in> set (contacted res) \<and> reports ''failed'' r"
  then show "stats_failures rough (tr @ [Stats_compute res b]) h"
    by (force simp: rough_def scripted_def ledger_failures_def folds_snoc list_ex_iff)
next
  fix tr and res :: results and b h r
  assume "(h, r) \<in> set (dark res)"
  then show "stats_dark rough (tr @ [Stats_compute res b]) h"
    by (force simp: rough_def scripted_def ledger_dark_def folds_snoc list_ex_iff)
qed

theorem run_returns_summary_witness:
  "runner_contract rough \<and> stats_contract rough \<and> list_all (play_configured rough) [p_deploy]
   \<and> (case fst (run rough [p_deploy] fresh) of
         Inl e \<Rightarrow> False
       | Inr s \<Rightarrow>
           map_of s ''h1'' = Some (JDict [(''ok'', JInt 3), (''changed'', JInt 3),
                                          (''failures'', JInt 0), (''unreachable'', JInt 0)])
           \<and> map_of s ''h2'' = Some (JDict [(''ok'', JInt 0), (''changed'', JInt 0),
                                            (''failures'', JInt 0), (''unreachable'', JInt 1)])
           \<and> map_of s ''h3'' = Some (JDict [(''ok'', JInt 0), (''changed'', JInt 0),
                                            (''failures'', JInt 1), (''unreachable'', JInt 0)]))
   \<and> SETUP_CACHE (snd (run rough [p_deploy] fresh))
       = [(''h1'', JDict [(''os'', JStr ''linux''), (''role'', JStr ''web'')]),
          (''h2'', JDict [(''os'', JStr ''linux'')])]"
proof -
  let ?run = "run rough [p_deploy] fresh"
  have r: "list_all (play_configured rough) [p_deploy]" by code_simp
  note T = run_returns_summary[of rough "[p_deploy]" fresh _ "snd ?run"]
  from T[THEN conjunct2] rough_runner rough_stats r obtain s where s: "fst ?run = Inr s" by blast
  then have run: "?run = (Inr s, snd ?run)" by (metis prod.collapse)
  have p: "''h1'' \<in> set (stats_processed rough (trace (snd ?run)))"
    "''h2'' \<in> set (stats_processed rough (trace (snd ?run)))"
    "''h3'' \<in> set (stats_processed rough (trace (snd ?run)))" by code_simp+
  have v: "stats_summarize rough (trace (snd ?run)) ''h1''
             = JDict [(''ok'', JInt 3), (''changed'', JInt 3), (''failures'', JInt 0), (''unreachable'', JInt 0)]"
    "stats_summarize rough (trace (snd ?run)) ''h2''
             = JDict [(''ok'', JInt 0), (''changed'', JInt 0), (''failures'', JInt 0), (''unreachable'', JInt 1)]"
    "stats_summarize rough (trace (snd ?run)) ''h3''
             = JDict [(''ok'', JInt 0), (''changed'', JInt 0), (''failures'', JInt 1), (''unreachable'', JInt 0)]"
    by code_simp+
  have c: "SETUP_CACHE (snd ?run)
       = [(''h1'', JDict [(''os'', JStr ''linux''), (''role'', JStr ''web'')]),
          (''h2'', JDict [(''os'', JStr ''linux'')])]" by code_simp
  from T[of s, THEN conjunct1, THEN mp, OF run] p v
  have "map_of s ''h1'' = Some (JDict [(''ok'', JInt 3), (''changed'', JInt 3),
                                          (''failures'', JInt 0), (''unreachable'', JInt 0)])"
    "map_of s ''h2'' = Some (JDict [(''ok'', JInt 0), (''changed'', JInt 0),
                                          (''failures'', JInt 0), (''unreachable'', JInt 1)])"
    "map_of s ''h3'' = Some (JDict [(''ok'', JInt 0), (''changed'', JInt 0),
                                            (''failures'', JInt 1), (''unreachable'', JInt 0)])"
    by simp_all
  with rough_runner rough_stats r c show ?thesis by (simp add: s)
qed

end
